theory Spec2Isabelle
  imports Main "HOL-Library.Multiset"
begin

section \<open>The legacy-layout converter of \<open>dashboard/v2/util/layoutConverter.js\<close>\<close>

text \<open>
  The converter takes a flat list of positioned slices and writes a tree of row, column and
  chart nodes into a registry object keyed by node id. This theory embeds the functions of
  \<open>layoutConverter.js\<close> and proves the properties the specification states about them.

  JavaScript numbers are IEEE doubles. The grid coordinates, the scan lines and the id counter
  are modelled as integers (\<open>int\<close> and \<open>nat\<close>), which is what the doubles are as long as they
  stay safe integers, of magnitude below \<open>2^53\<close>; the general theorems below carry that range as
  a hypothesis (\<open>safe_item\<close>, \<open>exact_run\<close>) and say nothing beyond it. The derived widths,
  which can become \<open>-Infinity\<close>, get a type of their own. A node object is identified with its
  entry in the registry (every node is registered under its own id before it is written to
  again), so a write through an object reference is a write to that entry.
\<close>

subsection \<open>Items and boundaries\<close>

record item =
  row :: int
  col :: int
  size_x :: int
  size_y :: int
  slice_id :: string

record boundary =
  b_top :: int
  b_bottom :: int
  b_left :: int
  b_right :: int

text \<open>\<open>Number.MAX_VALUE\<close>, the largest finite double, is the integer \<open>2^1024 - 2^971\<close>.\<close>

definition MAX_VALUE :: int where
  "MAX_VALUE = 2 ^ 1024 - 2 ^ 971"

text \<open>
  One round of the \<open>forEach\<close> in \<open>getBoundary\<close>. The sums \<open>row + size_y\<close> and \<open>col + size_x\<close>
  are double additions in the code, exact when the sum is a safe integer.
\<close>

definition boundary_step :: "boundary \<Rightarrow> item \<Rightarrow> boundary" where
  "boundary_step b i =
     (let b1 = (if row i \<le> b_top b then b\<lparr>b_top := row i\<rparr> else b);
          b2 = (if col i \<le> b_left b1 then b1\<lparr>b_left := col i\<rparr> else b1);
          b3 = (if b_bottom b2 \<le> row i + size_y i then b2\<lparr>b_bottom := row i + size_y i\<rparr> else b2)
      in (if b_right b3 \<le> col i + size_x i then b3\<lparr>b_right := col i + size_x i\<rparr> else b3))"

definition getBoundary :: "item list \<Rightarrow> boundary" where
  "getBoundary layout =
     foldl boundary_step \<lparr>b_top = MAX_VALUE, b_bottom = 0, b_left = MAX_VALUE, b_right = 1\<rparr> layout"

subsection \<open>Sorting and the overlap test\<close>

definition sortByRowId :: "item \<Rightarrow> item \<Rightarrow> int" where
  "sortByRowId item1 item2 = row item1 - row item2"

definition sortByColId :: "item \<Rightarrow> item \<Rightarrow> int" where
  "sortByColId item1 item2 = col item1 - col item2"

text \<open>
  \<open>Array.prototype.sort\<close> with a comparator, as a stable insertion sort (ECMAScript 2019
  requires the sort to be stable): an element goes before the first one it does not exceed.
\<close>

fun insort_cmp :: "('a \<Rightarrow> 'a \<Rightarrow> int) \<Rightarrow> 'a \<Rightarrow> 'a list \<Rightarrow> 'a list" where
  "insort_cmp cmp x [] = [x]"
| "insort_cmp cmp x (y # ys) = (if cmp x y \<le> 0 then x # y # ys else y # insort_cmp cmp x ys)"

definition sort_cmp :: "('a \<Rightarrow> 'a \<Rightarrow> int) \<Rightarrow> 'a list \<Rightarrow> 'a list" where
  "sort_cmp cmp xs = foldr (insort_cmp cmp) xs []"

text \<open>
  The callback of \<open>.some\<close> in \<open>hasOverlap\<close>, at one index of the sorted array, and
  \<open>hasOverlap\<close> itself: \<open>.some\<close> visits the indices \<open>0 .. length - 1\<close> in order. The
  differences of the comparators and the sums of the callback are those of the code on safe
  integers.
\<close>

definition overlap_at :: "bool \<Rightarrow> item list \<Rightarrow> nat \<Rightarrow> bool" where
  "overlap_at xAxis arr index =
     (if int index = int (length arr) - 1 then False
      else if xAxis then col (arr ! index) + size_x (arr ! index) > col (arr ! (index + 1))
      else row (arr ! index) + size_y (arr ! index) > row (arr ! (index + 1)))"

definition hasOverlap :: "item list \<Rightarrow> bool \<Rightarrow> bool" where
  "hasOverlap layout xAxis =
     (let arr = sort_cmp (if xAxis then sortByColId else sortByRowId) layout
      in list_ex (overlap_at xAxis arr) [0 ..< length arr])"

text \<open>
  The same function over a store of arrays, to make the copy visible: \<open>slice\<close> allocates a new
  array, \<open>sort\<close> writes the array it is called on, and the result is paired with the store
  after the call.
\<close>

type_synonym array_store = "item list list"

definition slice :: "array_store \<Rightarrow> nat \<Rightarrow> nat \<times> array_store" where
  "slice h a = (length h, h @ [h ! a])"

definition sort_in_place :: "('a \<Rightarrow> 'a \<Rightarrow> int) \<Rightarrow> 'a list list \<Rightarrow> nat \<Rightarrow> 'a list list" where
  "sort_in_place cmp h a = h[a := sort_cmp cmp (h ! a)]"

definition hasOverlap_store :: "array_store \<Rightarrow> nat \<Rightarrow> bool \<Rightarrow> bool \<times> array_store" where
  "hasOverlap_store h layout xAxis =
     (let (copy, h1) = slice h layout;
          h2 = sort_in_place (if xAxis then sortByColId else sortByRowId) h1 copy;
          arr = h2 ! copy
      in (list_ex (overlap_at xAxis arr) [0 ..< length arr], h2))"

subsection \<open>Nodes and the registry\<close>

datatype jsnum = Num int | NegInfinity | NaN

fun js_add :: "jsnum \<Rightarrow> jsnum \<Rightarrow> jsnum" where
  "js_add NaN _ = NaN"
| "js_add _ NaN = NaN"
| "js_add NegInfinity _ = NegInfinity"
| "js_add _ NegInfinity = NegInfinity"
| "js_add (Num a) (Num b) = Num (a + b)"

fun js_max :: "jsnum \<Rightarrow> jsnum \<Rightarrow> jsnum" where
  "js_max NaN _ = NaN"
| "js_max _ NaN = NaN"
| "js_max NegInfinity w = w"
| "js_max w NegInfinity = w"
| "js_max (Num a) (Num b) = Num (max a b)"

text \<open>\<open>Math.max.apply(null, ws)\<close> starts from \<open>-Infinity\<close>; \<open>reduce\<close> with \<open>+\<close> starts from 0.\<close>

definition math_max :: "jsnum list \<Rightarrow> jsnum" where
  "math_max ws = foldl js_max NegInfinity ws"

definition sum_widths :: "jsnum list \<Rightarrow> jsnum" where
  "sum_widths ws = foldl js_add (Num 0) ws"

datatype node_type =
  DASHBOARD_GRID_ROOT_TYPE | DASHBOARD_ROW_TYPE | DASHBOARD_COLUMN_TYPE | DASHBOARD_CHART_TYPE

record meta =
  rowStyle :: "string option"
  width :: "jsnum option"
  height :: "int option"
  sliceId :: "string option"
  meta_row :: "int option"
  meta_col :: "int option"

record node =
  version :: string
  ntype :: node_type
  node_id :: string
  children :: "string list"
  meta :: "meta option"

type_synonym registry = "(string \<times> node) list"

text \<open>
  The registry is a JavaScript object: an assignment to an existing key replaces the value in
  place, an assignment to a new key appends it.
\<close>

fun assign :: "string \<Rightarrow> node \<Rightarrow> registry \<Rightarrow> registry" where
  "assign k v [] = [(k, v)]"
| "assign k v (p # ps) = (if fst p = k then (k, v) # ps else p # assign k v ps)"

fun modify :: "string \<Rightarrow> (node \<Rightarrow> node) \<Rightarrow> registry \<Rightarrow> registry" where
  "modify k f [] = []"
| "modify k f (p # ps) = (if fst p = k then (k, f (snd p)) # ps else p # modify k f ps)"

record state =
  componentId :: nat
  root :: registry

subsection \<open>Identifiers\<close>

fun string_of_nat :: "nat \<Rightarrow> string" where
  "string_of_nat n =
     (if n < 10 then [char_of (48 + n)]
      else string_of_nat (n div 10) @ [char_of (48 + n mod 10)])"

definition generateId :: "state \<Rightarrow> nat \<times> state" where
  "generateId st = (componentId st, st\<lparr>componentId := componentId st + 1\<rparr>)"

definition getRowContainer :: "state \<Rightarrow> node \<times> state" where
  "getRowContainer st =
     (let (n, st') = generateId st
      in (\<lparr>version = ''v2'', ntype = DASHBOARD_ROW_TYPE,
           node_id = ''DASHBOARD_ROW_TYPE-'' @ string_of_nat n, children = [],
           meta = Some \<lparr>rowStyle = Some ''ROW_TRANSPARENT'', width = None, height = None,
                        sliceId = None, meta_row = None, meta_col = None\<rparr>\<rparr>, st'))"

definition getColContainer :: "state \<Rightarrow> node \<times> state" where
  "getColContainer st =
     (let (n, st') = generateId st
      in (\<lparr>version = ''v2'', ntype = DASHBOARD_COLUMN_TYPE,
           node_id = ''DASHBOARD_COLUMN_TYPE-'' @ string_of_nat n, children = [],
           meta = Some \<lparr>rowStyle = None, width = None, height = None,
                        sliceId = None, meta_row = None, meta_col = None\<rparr>\<rparr>, st'))"

definition chart_meta :: "item \<Rightarrow> meta" where
  "chart_meta i =
     \<lparr>rowStyle = None, width = Some (Num (max 1 (size_x i div 4))), height = Some (size_y i * 2),
      sliceId = Some (''slice_'' @ slice_id i), meta_row = Some (row i), meta_col = Some (col i)\<rparr>"

definition getChartHolder :: "item \<Rightarrow> state \<Rightarrow> node \<times> state" where
  "getChartHolder i st =
     (let (n, st') = generateId st
      in (\<lparr>version = ''v2'', ntype = DASHBOARD_CHART_TYPE,
           node_id = ''DASHBOARD_CHART_TYPE-'' @ string_of_nat n, children = [],
           meta = Some (chart_meta i)\<rparr>, st'))"

subsection \<open>Statements of \<open>doConvert\<close>\<close>

text \<open>
  \<open>root[n.id] = n\<close>, \<open>parent.children.push(id)\<close> and \<open>container.meta.width = w\<close>. The
  parent and the container are named by their ids: \<open>convert\<close> registers the root before it
  calls \<open>doConvert\<close>, and \<open>doConvert\<close> registers every container before it fills it.
\<close>

definition register :: "node \<Rightarrow> state \<Rightarrow> state" where
  "register n st = st\<lparr>root := assign (node_id n) n (root st)\<rparr>"

definition push_child :: "string \<Rightarrow> string \<Rightarrow> state \<Rightarrow> state" where
  "push_child parent c st =
     st\<lparr>root := modify parent (\<lambda>n. n\<lparr>children := children n @ [c]\<rparr>) (root st)\<rparr>"

definition set_width :: "string \<Rightarrow> jsnum \<Rightarrow> state \<Rightarrow> state" where
  "set_width k w st =
     st\<lparr>root := modify k (\<lambda>n. n\<lparr>meta := map_option (\<lambda>m. m\<lparr>width := Some w\<rparr>) (meta n)\<rparr>) (root st)\<rparr>"

text \<open>
  \<open>root[child].meta.width\<close>: a \<open>TypeError\<close> (\<open>None\<close>) when the child is not registered or has
  no \<open>meta\<close>; a missing \<open>width\<close> reads as \<open>undefined\<close>, which arithmetic turns into \<open>NaN\<close>.
  The container whose width is assigned was created with a \<open>meta\<close> object and registered
  just before, so reading its children and writing its width cannot fail.
\<close>

definition child_width :: "registry \<Rightarrow> string \<Rightarrow> jsnum option" where
  "child_width reg child =
     (case map_of reg child of
        None \<Rightarrow> None
      | Some n \<Rightarrow> (case meta n of
                    None \<Rightarrow> None
                  | Some m \<Rightarrow> Some (case width m of None \<Rightarrow> NaN | Some w \<Rightarrow> w)))"

definition children_of :: "registry \<Rightarrow> string \<Rightarrow> string list" where
  "children_of reg k = (case map_of reg k of None \<Rightarrow> [] | Some n \<Rightarrow> children n)"

definition add_col_meta :: "string \<Rightarrow> state \<Rightarrow> state option" where
  "add_col_meta k st =
     (case those (map (child_width (root st)) (children_of (root st) k)) of
        None \<Rightarrow> None
      | Some ws \<Rightarrow> Some (set_width k (math_max ws) st))"

definition add_row_meta :: "string \<Rightarrow> state \<Rightarrow> state option" where
  "add_row_meta k st =
     (case those (map (child_width (root st)) (children_of (root st) k)) of
        None \<Rightarrow> None
      | Some ws \<Rightarrow> Some (set_width k (sum_widths ws) st))"

text \<open>The three statements that create a chart holder, register it and push its id.\<close>

definition add_chart :: "string \<Rightarrow> state \<Rightarrow> item \<Rightarrow> state" where
  "add_chart parent st i =
     (let (chartHolder, st1) = getChartHolder i st
      in push_child parent (node_id chartHolder) (register chartHolder st1))"

fun forEach :: "'a list \<Rightarrow> ('a \<Rightarrow> state \<Rightarrow> state option) \<Rightarrow> state \<Rightarrow> state option" where
  "forEach [] f st = Some st"
| "forEach (x # xs) f st = (case f x st of None \<Rightarrow> None | Some st' \<Rightarrow> forEach xs f st')"

subsection \<open>The divider scans\<close>

text \<open>
  The callback of \<open>currentItems.every\<close>: an item ending at or before the line goes to
  \<open>lower\<close>, one starting at or after it to \<open>upper\<close>, and the first item that straddles the
  line stops the iteration with \<open>false\<close>. The sum \<open>near + extent\<close> is a double addition in the
  code, exact on safe items.
\<close>

fun every_side :: "(item \<Rightarrow> int) \<Rightarrow> (item \<Rightarrow> int) \<Rightarrow> int \<Rightarrow> item list \<Rightarrow> item list \<Rightarrow> item list
    \<Rightarrow> bool \<times> item list \<times> item list" where
  "every_side near extent line [] lower upper = (True, lower, upper)"
| "every_side near extent line (i # is) lower upper =
     (if near i + extent i \<le> line then every_side near extent line is (lower @ [i]) upper
      else if near i \<ge> line then every_side near extent line is lower (upper @ [i])
      else (False, lower, upper))"

text \<open>
  The two \<open>while\<close> loops. The scan line of the code is a double incremented by
  \<open>currentRow++\<close> and \<open>currentCol++\<close>; here it is an integer. They are the same number while the
  line is at most \<open>2^53\<close>, which holds when the boundary is a safe integer: the line starts at
  \<open>top + 1\<close> and stops at \<open>bottom + 1\<close>. Past \<open>2^53\<close> the increment of the code no longer
  advances, and the termination proved below is not that of the code.
\<close>

function rowScan :: "int \<Rightarrow> int \<Rightarrow> item list \<Rightarrow> item list list \<Rightarrow> item list list" where
  "rowScan currentRow bottom currentItems layers =
     (if currentItems \<noteq> [] \<and> currentRow \<le> bottom then
        (case every_side row size_y currentRow currentItems [] [] of
           (True, lower, upper) \<Rightarrow> rowScan (currentRow + 1) bottom upper (layers @ [lower])
         | (False, lower, upper) \<Rightarrow> rowScan (currentRow + 1) bottom currentItems layers)
      else layers)"
  by pat_completeness auto
termination
  by (relation "measure (\<lambda>(currentRow, bottom, currentItems, layers). nat (bottom + 1 - currentRow))") auto

text \<open>
  The column scan of one layer. \<open>rec\<close> is the recursive call
  \<open>doConvert(lower, level + 2, colContainer, root)\<close>.
\<close>

definition new_column :: "(item list \<Rightarrow> string \<Rightarrow> state \<Rightarrow> state option) \<Rightarrow> string \<Rightarrow> item list
    \<Rightarrow> state \<Rightarrow> state option" where
  "new_column rec rowId lower st =
     (let (colContainer, st1) = getColContainer st;
          st2 = push_child rowId (node_id colContainer) (register colContainer st1)
      in case (if \<not> hasOverlap lower False
               then Some (foldl (add_chart (node_id colContainer)) st2 (sort_cmp sortByRowId lower))
               else rec lower (node_id colContainer) st2) of
           None \<Rightarrow> None
         | Some st3 \<Rightarrow> add_col_meta (node_id colContainer) st3)"

function colScan :: "(item list \<Rightarrow> string \<Rightarrow> state \<Rightarrow> state option) \<Rightarrow> string \<Rightarrow> int \<Rightarrow> int
    \<Rightarrow> item list \<Rightarrow> state \<Rightarrow> state option" where
  "colScan rec rowId currentCol right currentItems st =
     (if currentItems \<noteq> [] \<and> currentCol \<le> right then
        (case every_side col size_x currentCol currentItems [] [] of
           (True, lower, upper) \<Rightarrow>
             (case new_column rec rowId lower st of
                None \<Rightarrow> None
              | Some st' \<Rightarrow> colScan rec rowId (currentCol + 1) right upper st')
         | (False, lower, upper) \<Rightarrow> colScan rec rowId (currentCol + 1) right currentItems st)
      else Some st)"
  by pat_completeness auto
termination
  by (relation "measure (\<lambda>(rec, rowId, currentCol, right, currentItems, st). nat (right + 1 - currentCol))") auto

subsection \<open>\<open>doConvert\<close> and \<open>convert\<close>\<close>

function doConvert :: "item list \<Rightarrow> nat \<Rightarrow> string \<Rightarrow> state \<Rightarrow> state option" where
  "doConvert layout level parent st =
     (if length layout = 0 then Some st
      else if length layout = 1 then Some (add_chart parent st (layout ! 0))
      else
        (let b = getBoundary layout;
             layers = rowScan (b_top b + 1) (b_bottom b) layout []
         in forEach layers
              (\<lambda>layer s.
                 let (rowContainer, s1) = getRowContainer s;
                     s2 = push_child parent (node_id rowContainer) (register rowContainer s1)
                 in case (if level \<ge> 2 \<or> \<not> hasOverlap layer True
                          then Some (foldl (add_chart (node_id rowContainer)) s2 (sort_cmp sortByColId layer))
                          else colScan (\<lambda>lower p s'. doConvert lower (level + 2) p s')
                                 (node_id rowContainer) (b_left b + 1) (b_right b) layer s2) of
                      None \<Rightarrow> None
                    | Some s3 \<Rightarrow> add_row_meta (node_id rowContainer) s3)
              st))"
  by pat_completeness auto
termination
  by (relation "measure (\<lambda>(layout, level, parent, st). 2 - level)") auto

definition root_node :: node where
  "root_node = \<lparr>version = ''v2'', ntype = DASHBOARD_GRID_ROOT_TYPE,
                node_id = ''DASHBOARD_ROOT_ID'', children = [], meta = None\<rparr>"

text \<open>
  \<open>convert\<close> builds the result object with the root, converts the constant \<open>dash6\<close> and
  prints the result as JSON; here it is the registry it prints. The id counter is 1 when the
  module is loaded. \<open>convertLayout\<close> is the body of \<open>convert\<close> for any layout and any value of
  the counter, which all calls share.
\<close>

definition convertLayout :: "item list \<Rightarrow> nat \<Rightarrow> registry option" where
  "convertLayout layout c =
     map_option root
       (doConvert layout 0 ''DASHBOARD_ROOT_ID''
          \<lparr>componentId = c, root = [(''DASHBOARD_ROOT_ID'', root_node)]\<rparr>)"

definition dash6 :: "item list" where
  "dash6 =
     [\<lparr>row = 8, col = 1, size_x = 16, size_y = 9, slice_id = ''45''\<rparr>,
      \<lparr>row = 0, col = 17, size_x = 16, size_y = 17, slice_id = ''51''\<rparr>,
      \<lparr>row = 0, col = 33, size_x = 16, size_y = 17, slice_id = ''57''\<rparr>,
      \<lparr>row = 4, col = 1, size_x = 16, size_y = 4, slice_id = ''293''\<rparr>,
      \<lparr>row = 0, col = 1, size_x = 16, size_y = 4, slice_id = ''294''\<rparr>]"

definition convert :: "registry option" where
  "convert = convertLayout dash6 1"

subsection \<open>Valid input and exact arithmetic\<close>

text \<open>
  The items the specification calls valid: non-negative \<open>row\<close> and \<open>col\<close>, strictly positive
  \<open>size_x\<close> and \<open>size_y\<close>.
\<close>

definition valid_item :: "item \<Rightarrow> bool" where
  "valid_item i \<longleftrightarrow> 0 \<le> row i \<and> 0 \<le> col i \<and> 0 < size_x i \<and> 0 < size_y i"

text \<open>
  The numbers of the code are IEEE doubles, those of this theory are integers. The two agree
  as long as every number the converter computes is a safe integer, one of magnitude at most
  \<open>Number.MAX_SAFE_INTEGER = 2^53 - 1\<close>: sums and increments of such numbers are exact, and a
  scan line, which ends one past the boundary, is at most \<open>2^53\<close>, still exact. Beyond that
  range a double sum is rounded and \<open>currentRow++\<close> stops advancing, and the theory says
  nothing about the code.

  \<open>safe_item\<close>: the coordinates and sizes of an item and the two sums the code forms from
  them are safe integers. \<open>safe_layout\<close>: all items are safe, and so is the sum of all chart
  widths, which bounds every width the converter adds up. \<open>ids_after\<close>: the id counter after
  the conversion of a layout that started with the counter at \<open>c\<close>. \<open>exact_run\<close>: the layout
  is safe and the counter ends at \<open>2^53\<close> at most, so that every \<open>componentId++\<close> was exact
  and no two calls of \<open>generateId\<close> gave the same id; the scans do not depend on the ids, so
  the counter of the theory counts the calls the code makes.
\<close>

definition MAX_SAFE_INTEGER :: int where
  "MAX_SAFE_INTEGER = 2 ^ 53 - 1"

definition safe_int :: "int \<Rightarrow> bool" where
  "safe_int x \<longleftrightarrow> - MAX_SAFE_INTEGER \<le> x \<and> x \<le> MAX_SAFE_INTEGER"

definition safe_item :: "item \<Rightarrow> bool" where
  "safe_item i \<longleftrightarrow>
     safe_int (row i) \<and> safe_int (col i) \<and> safe_int (size_x i) \<and> safe_int (size_y i)
     \<and> safe_int (row i + size_y i) \<and> safe_int (col i + size_x i)"




text \<open>Two items that overlap along the horizontal axis, for the examples.\<close>

definition ex_a :: item where
  "ex_a = \<lparr>row = 0, col = 5, size_x = 4, size_y = 2, slice_id = ''a''\<rparr>"

definition ex_b :: item where
  "ex_b = \<lparr>row = 1, col = 0, size_x = 6, size_y = 2, slice_id = ''b''\<rparr>"

subsection \<open>Reading an identifier back\<close>

text \<open>The number a decimal string denotes; it inverts \<open>string_of_nat\<close>.\<close>

definition digits_value :: "string \<Rightarrow> nat" where
  "digits_value s = foldl (\<lambda>a c. 10 * a + (of_char c - 48)) 0 s"

subsection \<open>The inputs and results of the worked cases\<close>

abbreviation item240 :: item where
  "item240 \<equiv> \<lparr>row = 1, col = 1, size_x = 16, size_y = 16, slice_id = ''240''\<rparr>"

abbreviation col_item :: "int \<Rightarrow> string \<Rightarrow> item" where
  "col_item c s \<equiv> \<lparr>row = 0, col = c, size_x = 16, size_y = 16, slice_id = s\<rparr>"

abbreviation leaf4 :: "string \<Rightarrow> int \<Rightarrow> int \<Rightarrow> string \<Rightarrow> node" where
  "leaf4 k r c s \<equiv> \<lparr>version = ''v2'', ntype = DASHBOARD_CHART_TYPE, node_id = k, children = [],
       meta = Some \<lparr>rowStyle = None, width = Some (Num 4), height = Some 32,
                    sliceId = Some (''slice_'' @ s), meta_row = Some r, meta_col = Some c\<rparr>\<rparr>"

text \<open>What the converter returns for the single item: the root and one chart under it.\<close>

definition single_item_result :: "nat \<Rightarrow> registry" where
  "single_item_result c =
     [(''DASHBOARD_ROOT_ID'',
         \<lparr>version = ''v2'', ntype = DASHBOARD_GRID_ROOT_TYPE, node_id = ''DASHBOARD_ROOT_ID'',
          children = [''DASHBOARD_CHART_TYPE-'' @ string_of_nat c], meta = None\<rparr>),
      (''DASHBOARD_CHART_TYPE-'' @ string_of_nat c,
         leaf4 (''DASHBOARD_CHART_TYPE-'' @ string_of_nat c) 1 1 ''240'')]"

text \<open>The registry of the three-column case: the root, one row of width 12, three charts.\<close>

definition three_columns_result :: "nat \<Rightarrow> string \<Rightarrow> string \<Rightarrow> string \<Rightarrow> registry" where
  "three_columns_result c s1 s2 s3 =
     [(''DASHBOARD_ROOT_ID'',
         \<lparr>version = ''v2'', ntype = DASHBOARD_GRID_ROOT_TYPE, node_id = ''DASHBOARD_ROOT_ID'',
          children = [''DASHBOARD_ROW_TYPE-'' @ string_of_nat c], meta = None\<rparr>),
      (''DASHBOARD_ROW_TYPE-'' @ string_of_nat c,
         \<lparr>version = ''v2'', ntype = DASHBOARD_ROW_TYPE,
          node_id = ''DASHBOARD_ROW_TYPE-'' @ string_of_nat c,
          children = [''DASHBOARD_CHART_TYPE-'' @ string_of_nat (c + 1),
                      ''DASHBOARD_CHART_TYPE-'' @ string_of_nat (c + 2),
                      ''DASHBOARD_CHART_TYPE-'' @ string_of_nat (c + 3)],
          meta = Some \<lparr>rowStyle = Some ''ROW_TRANSPARENT'', width = Some (Num 12), height = None,
                       sliceId = None, meta_row = None, meta_col = None\<rparr>\<rparr>),
      (''DASHBOARD_CHART_TYPE-'' @ string_of_nat (c + 1),
         leaf4 (''DASHBOARD_CHART_TYPE-'' @ string_of_nat (c + 1)) 0 1 s1),
      (''DASHBOARD_CHART_TYPE-'' @ string_of_nat (c + 2),
         leaf4 (''DASHBOARD_CHART_TYPE-'' @ string_of_nat (c + 2)) 0 17 s2),
      (''DASHBOARD_CHART_TYPE-'' @ string_of_nat (c + 3),
         leaf4 (''DASHBOARD_CHART_TYPE-'' @ string_of_nat (c + 3)) 0 33 s3)]"

text \<open>
  Two valid layouts: in the first the items leave row 1 free; in the second the lower layer
  starts two columns to the right of the layout's left edge.
\<close>

definition gap_layout :: "item list" where
  "gap_layout = [\<lparr>row = 0, col = 0, size_x = 1, size_y = 1, slice_id = ''a''\<rparr>,
                 \<lparr>row = 2, col = 0, size_x = 1, size_y = 1, slice_id = ''b''\<rparr>]"

definition offset_layout :: "item list" where
  "offset_layout = [\<lparr>row = 0, col = 0, size_x = 1, size_y = 1, slice_id = ''a''\<rparr>,
                    \<lparr>row = 1, col = 2, size_x = 2, size_y = 2, slice_id = ''b''\<rparr>,
                    \<lparr>row = 1, col = 3, size_x = 1, size_y = 1, slice_id = ''c''\<rparr>]"

definition empty_row :: "nat \<Rightarrow> node" where
  "empty_row n = \<lparr>version = ''v2'', ntype = DASHBOARD_ROW_TYPE,
      node_id = ''DASHBOARD_ROW_TYPE-'' @ string_of_nat n, children = [],
      meta = Some \<lparr>rowStyle = Some ''ROW_TRANSPARENT'', width = Some (Num 0), height = None,
                   sliceId = None, meta_row = None, meta_col = None\<rparr>\<rparr>"

definition empty_column :: "nat \<Rightarrow> node" where
  "empty_column n = \<lparr>version = ''v2'', ntype = DASHBOARD_COLUMN_TYPE,
      node_id = ''DASHBOARD_COLUMN_TYPE-'' @ string_of_nat n, children = [],
      meta = Some \<lparr>rowStyle = None, width = Some NegInfinity, height = None,
                   sliceId = None, meta_row = None, meta_col = None\<rparr>\<rparr>"











subsection \<open>Invariants of the registry\<close>

definition keys :: "registry \<Rightarrow> string list" where
  "keys reg = map fst reg"

text \<open>All child references of a registry, parent by parent.\<close>

definition all_children :: "registry \<Rightarrow> string list" where
  "all_children reg = concat (map (\<lambda>p. children (snd p)) reg)"

text \<open>The \<open>meta\<close> objects of the chart nodes, in registry order.\<close>

definition leaf_metas :: "registry \<Rightarrow> meta option list" where
  "leaf_metas reg = map (\<lambda>p. meta (snd p)) (filter (\<lambda>p. ntype (snd p) = DASHBOARD_CHART_TYPE) reg)"

definition has_width :: "node \<Rightarrow> bool" where
  "has_width n = (case meta n of None \<Rightarrow> False | Some m \<Rightarrow> width m \<noteq> None)"

text \<open>
  A container that has its width has it from its children, read the way \<open>doConvert\<close> reads
  them: a row the sum, a column the maximum; and no width is \<open>NaN\<close>.
\<close>

definition width_law :: "registry \<Rightarrow> node \<Rightarrow> bool" where
  "width_law reg n =
     (\<forall>m w. meta n = Some m \<longrightarrow> width m = Some w \<longrightarrow>
        w \<noteq> NaN
        \<and> (ntype n = DASHBOARD_ROW_TYPE \<longrightarrow>
              (\<exists>ws. those (map (child_width reg) (children n)) = Some ws \<and> w = sum_widths ws))
        \<and> (ntype n = DASHBOARD_COLUMN_TYPE \<longrightarrow>
              (\<exists>ws. those (map (child_width reg) (children n)) = Some ws \<and> w = math_max ws)))"

definition is_gen_id :: "nat \<Rightarrow> string \<Rightarrow> bool" where
  "is_gen_id n k \<longleftrightarrow>
     k = ''DASHBOARD_ROW_TYPE-'' @ string_of_nat n
     \<or> k = ''DASHBOARD_COLUMN_TYPE-'' @ string_of_nat n
     \<or> k = ''DASHBOARD_CHART_TYPE-'' @ string_of_nat n"

text \<open>
  The invariant of a conversion in progress. \<open>opens\<close> are the containers still being filled
  (the root and the enclosing row and column): exactly they have no width yet.
\<close>

definition conv_inv :: "string set \<Rightarrow> state \<Rightarrow> bool" where
  "conv_inv opens st \<longleftrightarrow>
     distinct (keys (root st))
     \<and> mset (all_children (root st)) + {#''DASHBOARD_ROOT_ID''#} = mset (keys (root st))
     \<and> (\<forall>k\<in>set (keys (root st)). \<forall>n\<ge>componentId st. \<not> is_gen_id n k)
     \<and> (\<forall>k n. map_of (root st) k = Some n \<longrightarrow> width_law (root st) n)
     \<and> opens \<subseteq> set (keys (root st))
     \<and> (\<forall>k n. map_of (root st) k = Some n \<longrightarrow> (has_width n \<longleftrightarrow> k \<notin> opens))"

definition pre :: "string set \<Rightarrow> string \<Rightarrow> state \<Rightarrow> bool" where
  "pre opens parent st \<longleftrightarrow> conv_inv opens st \<and> parent \<in> opens"

text \<open>
  What a run of statements that fills \<open>parent\<close> does to the state: the invariant holds again,
  every other node is what it was, \<open>parent\<close> has new children, all with a width, and the charts
  added are those of the items \<open>E\<close>.
\<close>

definition step :: "string set \<Rightarrow> string \<Rightarrow> item multiset \<Rightarrow> state \<Rightarrow> state \<Rightarrow> bool" where
  "step opens parent E st st' \<longleftrightarrow>
     conv_inv opens st'
     \<and> (\<forall>k n. map_of (root st) k = Some n \<longrightarrow> k \<noteq> parent \<longrightarrow> map_of (root st') k = Some n)
     \<and> (\<exists>p new. map_of (root st) parent = Some p
           \<and> map_of (root st') parent = Some (p\<lparr>children := children p @ new\<rparr>)
           \<and> (\<forall>c\<in>set new. \<exists>n. map_of (root st') c = Some n \<and> has_width n))
     \<and> mset (leaf_metas (root st')) = mset (leaf_metas (root st)) + image_mset (\<lambda>i. Some (chart_meta i)) E"

definition ok :: "string set \<Rightarrow> string \<Rightarrow> bool \<Rightarrow> item multiset \<Rightarrow> (state \<Rightarrow> state option) \<Rightarrow> bool" where
  "ok opens parent V E f \<longleftrightarrow>
     (\<forall>st. pre opens parent st \<longrightarrow>
        (\<exists>st' E'. f st = Some st' \<and> step opens parent E' st st' \<and> (V \<longrightarrow> E' = E)))"





subsection \<open>Two conversions side by side\<close>






section \<open>Identifiers are distinct\<close>

declare string_of_nat.simps [simp del]
declare rowScan.simps [simp del]
declare colScan.simps [simp del]
declare doConvert.simps [simp del]

lemma digits_value_string_of_nat: "digits_value (string_of_nat n) = n"
proof (induction n rule: string_of_nat.induct)
  case (1 n)
  show ?case
  proof (cases "n < 10")
    case True
    then show ?thesis
      by (subst string_of_nat.simps) (simp add: digits_value_def)
  next
    case False
    with 1 have "digits_value (string_of_nat (n div 10)) = n div 10" by simp
    moreover have "of_char (char_of (48 + n mod 10)) = 48 + n mod 10"
      by simp
    ultimately show ?thesis using False
      by (subst string_of_nat.simps) (simp add: digits_value_def)
  qed
qed

lemma string_of_nat_eq_iff [simp]: "string_of_nat a = string_of_nat b \<longleftrightarrow> a = b"
  by (metis digits_value_string_of_nat)

lemma string_of_nat_one [simp]: "string_of_nat (Suc 0) = ''1''"
  by code_simp

lemmas eval_defs = convertLayout_def doConvert.simps rowScan.simps colScan.simps getBoundary_def
  boundary_step_def MAX_VALUE_def hasOverlap_def overlap_at_def sort_cmp_def sortByColId_def
  sortByRowId_def add_chart_def getChartHolder_def getRowContainer_def getColContainer_def
  generateId_def register_def push_child_def set_width_def add_row_meta_def add_col_meta_def
  child_width_def children_of_def root_node_def chart_meta_def new_column_def math_max_def
  sum_widths_def Let_def

section \<open>Boundaries and the overlap test\<close>

lemma boundary_step_simps:
  "b_top (boundary_step b i) = min (b_top b) (row i)"
  "b_left (boundary_step b i) = min (b_left b) (col i)"
  "b_bottom (boundary_step b i) = max (b_bottom b) (row i + size_y i)"
  "b_right (boundary_step b i) = max (b_right b) (col i + size_x i)"
  by (simp_all add: boundary_step_def Let_def)

lemma foldl_boundary:
  "b_top (foldl boundary_step b xs) = Min (insert (b_top b) (row ` set xs))"
  "b_left (foldl boundary_step b xs) = Min (insert (b_left b) (col ` set xs))"
  "b_bottom (foldl boundary_step b xs) = Max (insert (b_bottom b) ((\<lambda>i. row i + size_y i) ` set xs))"
  "b_right (foldl boundary_step b xs) = Max (insert (b_right b) ((\<lambda>i. col i + size_x i) ` set xs))"
proof (induction xs arbitrary: b)
  case Nil
  { case 1 show ?case by simp }
  { case 2 show ?case by simp }
  { case 3 show ?case by simp }
  { case 4 show ?case by simp }
next
  case (Cons x xs)
  { case 1 show ?case by (cases "xs = []") (simp_all add: Cons.IH boundary_step_simps min.assoc) }
  { case 2 show ?case by (cases "xs = []") (simp_all add: Cons.IH boundary_step_simps min.assoc) }
  { case 3 show ?case by (cases "xs = []") (simp_all add: Cons.IH boundary_step_simps max.assoc) }
  { case 4 show ?case by (cases "xs = []") (simp_all add: Cons.IH boundary_step_simps max.assoc) }
qed

lemma safe_item_below_MAX_VALUE:
  assumes "safe_item i"
  shows "row i \<le> MAX_VALUE" and "col i \<le> MAX_VALUE"
proof -
  have "MAX_SAFE_INTEGER \<le> MAX_VALUE" by (simp add: MAX_SAFE_INTEGER_def MAX_VALUE_def)
  with assms show "row i \<le> MAX_VALUE" and "col i \<le> MAX_VALUE"
    by (auto simp: safe_item_def safe_int_def)
qed

text \<open>
  Claim C7. For a non-empty list of valid items whose numbers are safe integers (the range
  in which the sums of the code are the sums of the theory), \<open>getBoundary\<close> returns the
  least \<open>row\<close> as top, the least \<open>col\<close> as left, the greatest \<open>row + size_y\<close> as bottom and
  the greatest \<open>col + size_x\<close> as right.
\<close>

theorem getBoundary_min_max:
  assumes "layout \<noteq> []" and "\<forall>i\<in>set layout. valid_item i \<and> safe_item i"
  shows "b_top (getBoundary layout) = Min (row ` set layout)
       \<and> b_left (getBoundary layout) = Min (col ` set layout)
       \<and> b_bottom (getBoundary layout) = Max ((\<lambda>i. row i + size_y i) ` set layout)
       \<and> b_right (getBoundary layout) = Max ((\<lambda>i. col i + size_x i) ` set layout)"
proof -
  obtain x where x: "x \<in> set layout" using assms(1) by (cases layout) auto
  have fin: "finite (row ` set layout)" "finite (col ` set layout)" 
     "finite ((\<lambda>i. row i + size_y i) ` set layout)" "finite ((\<lambda>i. col i + size_x i) ` set layout)" by simp_all
  have ne: "row ` set layout \<noteq> {}" "col ` set layout \<noteq> {}" 
     "(\<lambda>i. row i + size_y i) ` set layout \<noteq> {}" "(\<lambda>i. col i + size_x i) ` set layout \<noteq> {}" using x by auto
  have t: "Min (row ` set layout) \<le> MAX_VALUE"
    using assms(2) x fin(1) by (meson Min_le order_trans image_eqI safe_item_below_MAX_VALUE(1))
  have l: "Min (col ` set layout) \<le> MAX_VALUE"
    using assms(2) x fin(2) by (meson Min_le order_trans image_eqI safe_item_below_MAX_VALUE(2))
  have "0 \<le> row x + size_y x" "1 \<le> col x + size_x x" using assms(2) x by (auto simp: valid_item_def)
  then have b: "0 \<le> Max ((\<lambda>i. row i + size_y i) ` set layout)" and r: "1 \<le> Max ((\<lambda>i. col i + size_x i) ` set layout)"
    using x fin by (meson Max_ge order_trans image_eqI)+
  show ?thesis
    using t l b r fin ne by (simp add: getBoundary_def foldl_boundary min_absorb2 max_absorb2)
qed

theorem getBoundary_min_max_witness:
  "[ex_a, ex_b] \<noteq> [] \<and> valid_item ex_a \<and> safe_item ex_a \<and> valid_item ex_b \<and> safe_item ex_b
   \<and> b_top (getBoundary [ex_a, ex_b]) = 0 \<and> b_left (getBoundary [ex_a, ex_b]) = 0
   \<and> b_bottom (getBoundary [ex_a, ex_b]) = 3 \<and> b_right (getBoundary [ex_a, ex_b]) = 9"
  using getBoundary_min_max [of "[ex_a, ex_b]"]
  by (simp add: valid_item_def safe_item_def safe_int_def MAX_SAFE_INTEGER_def ex_a_def ex_b_def)

lemma insort_cmp_key:
  "insort_cmp sortByColId x ys = insort_key col x ys"
  "insort_cmp sortByRowId x ys = insort_key row x ys"
  by (induction ys) (simp_all add: sortByColId_def sortByRowId_def)

lemma sort_cmp_key:
  "sort_cmp sortByColId xs = sort_key col xs"
  "sort_cmp sortByRowId xs = sort_key row xs"
  by (induction xs) (simp_all add: sort_cmp_def sort_key_def insort_cmp_key)

lemma some_overlap_at:
  "list_ex (overlap_at xAxis arr) [0 ..< length arr] \<longleftrightarrow>
     (\<exists>i. i + 1 < length arr \<and>
          (if xAxis then col (arr ! i) + size_x (arr ! i) > col (arr ! (i + 1))
           else row (arr ! i) + size_y (arr ! i) > row (arr ! (i + 1))))"
  (is "?l = ?r")
proof
  assume ?l
  then obtain i where i: "i < length arr" "overlap_at xAxis arr i"
    by (auto simp: list_ex_iff)
  then have "int i \<noteq> int (length arr) - 1"
    by (auto simp: overlap_at_def)
  with i(1) have "i + 1 < length arr" by linarith
  with i(2) show ?r by (auto simp: overlap_at_def split: if_splits)
next
  assume ?r
  then obtain i where i: "i + 1 < length arr"
    "if xAxis then col (arr ! i) + size_x (arr ! i) > col (arr ! (i + 1))
           else row (arr ! i) + size_y (arr ! i) > row (arr ! (i + 1))" by blast
  then have "overlap_at xAxis arr i" by (auto simp: overlap_at_def)
  with i(1) show ?l by (auto simp: list_ex_iff)
qed

text \<open>
  Claim C8. On items whose numbers are safe integers (so that the comparator's differences
  have the sign, and the sums \<open>col + size_x\<close> and \<open>row + size_y\<close> the value, that the code
  computes), \<open>hasOverlap\<close> is true exactly when, in the list sorted by the near coordinate of
  the axis (\<open>col\<close> for the horizontal axis, \<open>row\<close> for the vertical one), some item and its
  successor satisfy \<open>col + size_x > next col\<close> (or the row analogue); only adjacent pairs are
  compared. The sort works on a copy: in the store after the call the argument array is what
  it was.
\<close>

theorem hasOverlap_adjacent_pairs:
  assumes "layout < length h" and "\<forall>i\<in>set (h ! layout). safe_item i"
  shows "(hasOverlap (h ! layout) xAxis \<longleftrightarrow>
           (\<exists>i. i + 1 < length (sort_key (if xAxis then col else row) (h ! layout)) \<and>
              (if xAxis
               then col (sort_key col (h ! layout) ! i) + size_x (sort_key col (h ! layout) ! i)
                      > col (sort_key col (h ! layout) ! (i + 1))
               else row (sort_key row (h ! layout) ! i) + size_y (sort_key row (h ! layout) ! i)
                      > row (sort_key row (h ! layout) ! (i + 1)))))
       \<and> fst (hasOverlap_store h layout xAxis) = hasOverlap (h ! layout) xAxis
       \<and> snd (hasOverlap_store h layout xAxis) ! layout = h ! layout"
proof (intro conjI)
  show "hasOverlap (h ! layout) xAxis \<longleftrightarrow>
           (\<exists>i. i + 1 < length (sort_key (if xAxis then col else row) (h ! layout)) \<and>
              (if xAxis
               then col (sort_key col (h ! layout) ! i) + size_x (sort_key col (h ! layout) ! i)
                      > col (sort_key col (h ! layout) ! (i + 1))
               else row (sort_key row (h ! layout) ! i) + size_y (sort_key row (h ! layout) ! i)
                      > row (sort_key row (h ! layout) ! (i + 1))))"
    by (cases xAxis) (simp_all add: hasOverlap_def Let_def sort_cmp_key some_overlap_at)
  show "fst (hasOverlap_store h layout xAxis) = hasOverlap (h ! layout) xAxis"
    using assms(1)
    by (simp add: hasOverlap_store_def hasOverlap_def slice_def sort_in_place_def Let_def nth_append)
  show "snd (hasOverlap_store h layout xAxis) ! layout = h ! layout"
    using assms(1)
    by (simp add: hasOverlap_store_def slice_def sort_in_place_def Let_def nth_append)
qed

theorem hasOverlap_adjacent_pairs_witness:
  "(0::nat) < length [[ex_a, ex_b]] \<and> safe_item ex_a \<and> safe_item ex_b
   \<and> hasOverlap ([[ex_a, ex_b]] ! 0) True
   \<and> fst (hasOverlap_store [[ex_a, ex_b]] 0 True) = hasOverlap ([[ex_a, ex_b]] ! 0) True
   \<and> snd (hasOverlap_store [[ex_a, ex_b]] 0 True) ! 0 = [ex_a, ex_b]
   \<and> snd (hasOverlap_store [[ex_a, ex_b]] 0 True) ! 1 = [ex_b, ex_a]"
  using hasOverlap_adjacent_pairs [of 0 "[[ex_a, ex_b]]" True]
  by (simp add: hasOverlap_store_def hasOverlap_def slice_def sort_in_place_def Let_def overlap_at_def
      sort_cmp_def sortByColId_def safe_item_def safe_int_def MAX_SAFE_INTEGER_def ex_a_def ex_b_def)

section \<open>Worked cases\<close>

text \<open>
  Claim C3, as the code has it. A layout of one item takes the \<open>layout.length === 1\<close> branch
  of \<open>doConvert\<close>: the chart holder is registered and pushed to the parent itself. For the item
  \<open>{row: 1, col: 1, size_x: 16, size_y: 16, slice_id: "240"}\<close> the registry holds the root and
  one chart of width 4 and height 32, the root's only child; no row is created.
\<close>

theorem single_item_chart_under_root:
  "convertLayout [item240] c = Some (single_item_result c)"
  by (simp add: convertLayout_def doConvert.simps add_chart_def getChartHolder_def generateId_def
      register_def push_child_def root_node_def chart_meta_def single_item_result_def)

text \<open>
  The claim as the specification words it asks for a row between the root and the chart.
  With the counter at 1 the root's child is the chart \<open>DASHBOARD_CHART_TYPE-1\<close>, and the
  registry has no row.
\<close>

theorem single_item_no_row:
  "convertLayout [item240] 1 =
     Some [(''DASHBOARD_ROOT_ID'',
              \<lparr>version = ''v2'', ntype = DASHBOARD_GRID_ROOT_TYPE, node_id = ''DASHBOARD_ROOT_ID'',
               children = [''DASHBOARD_CHART_TYPE-1''], meta = None\<rparr>),
           (''DASHBOARD_CHART_TYPE-1'',
              \<lparr>version = ''v2'', ntype = DASHBOARD_CHART_TYPE, node_id = ''DASHBOARD_CHART_TYPE-1'',
               children = [],
               meta = Some \<lparr>rowStyle = None, width = Some (Num 4), height = Some 32,
                            sliceId = Some ''slice_240'', meta_row = Some 1, meta_col = Some 1\<rparr>\<rparr>)]"
  by code_simp

lemma three_columns_scan:
  assumes "layout \<in> {[col_item 1 s1, col_item 17 s2, col_item 33 s3],
                     [col_item 1 s1, col_item 33 s3, col_item 17 s2],
                     [col_item 17 s2, col_item 1 s1, col_item 33 s3],
                     [col_item 17 s2, col_item 33 s3, col_item 1 s1],
                     [col_item 33 s3, col_item 1 s1, col_item 17 s2],
                     [col_item 33 s3, col_item 17 s2, col_item 1 s1]}"
  shows "length layout = 3"
    and "getBoundary layout = \<lparr>b_top = 0, b_bottom = 16, b_left = 1, b_right = 49\<rparr>"
    and "rowScan 1 16 layout [] = [layout]"
    and "\<not> hasOverlap layout True"
    and "sort_cmp sortByColId layout = [col_item 1 s1, col_item 17 s2, col_item 33 s3]"
  using assms
  by (auto simp: getBoundary_def boundary_step_def MAX_VALUE_def rowScan.simps hasOverlap_def
      overlap_at_def sort_cmp_def sortByColId_def Let_def)

text \<open>
  Claim C5. Three items at row 0 and columns 1, 17 and 33, each 16 by 16, in any order and
  with any slice ids: the root gets one row, the row's children are the three charts in
  ascending column order, each chart has width 4 and height 32, and the row has width 12.
\<close>

theorem three_columns_one_row:
  assumes "layout \<in> {[col_item 1 s1, col_item 17 s2, col_item 33 s3],
                     [col_item 1 s1, col_item 33 s3, col_item 17 s2],
                     [col_item 17 s2, col_item 1 s1, col_item 33 s3],
                     [col_item 17 s2, col_item 33 s3, col_item 1 s1],
                     [col_item 33 s3, col_item 1 s1, col_item 17 s2],
                     [col_item 33 s3, col_item 17 s2, col_item 1 s1]}"
  shows "convertLayout layout c = Some (three_columns_result c s1 s2 s3)"
  unfolding convertLayout_def
  by (subst doConvert.simps)
     (simp add: three_columns_scan [OF assms] add_chart_def getChartHolder_def
        getRowContainer_def generateId_def register_def push_child_def set_width_def
        add_row_meta_def child_width_def children_of_def root_node_def chart_meta_def
        sum_widths_def three_columns_result_def Let_def)

theorem three_columns_one_row_witness:
  "convertLayout [col_item 17 ''117'', col_item 1 ''118'', col_item 33 ''119''] 1
     = Some (three_columns_result 1 ''118'' ''117'' ''119'')"
  using three_columns_one_row [of "[col_item 17 ''117'', col_item 1 ''118'', col_item 33 ''119'']"
      "''118''" "''117''" "''119''" 1]
  by simp

lemma every_side_all_upper:
  "(\<forall>i\<in>set items. line \<le> near i \<and> 0 < extent i) \<Longrightarrow>
     every_side near extent line items lower upper = (True, lower, upper @ items)"
  by (induction items arbitrary: upper) auto

lemma gap_layout_empty_row:
  "n = c + 2 \<Longrightarrow> \<exists>reg. convertLayout gap_layout c = Some reg
     \<and> map_of reg (''DASHBOARD_ROW_TYPE-'' @ string_of_nat n) = Some (empty_row n)"
  by (simp add: eval_defs gap_layout_def empty_row_def)

lemma offset_layout_empty_column:
  "\<exists>reg. convertLayout offset_layout c = Some reg
     \<and> map_of reg (''DASHBOARD_COLUMN_TYPE-'' @ string_of_nat (c + 3)) = Some (empty_column (c + 3))
     \<and> map_of reg (''DASHBOARD_COLUMN_TYPE-'' @ string_of_nat (c + 4)) = Some (empty_column (c + 4))"
  by (simp add: eval_defs offset_layout_def empty_column_def)

text \<open>
  Claim C10. Some valid layouts of more than one item give containers without children.
  When every remaining item starts at or after the scan line, the \<open>every\<close> callback accepts
  the line with an empty \<open>lower\<close>, for rows and for columns alike. In \<open>gap_layout\<close> row 1 is
  free, and the second row container has no children and width 0. In \<open>offset_layout\<close> the
  column scan of the lower layer starts at the left edge of the whole layout, two columns
  before the layer's first item, and the two column containers it creates there have no
  children and width \<open>-Infinity\<close>.
\<close>

theorem empty_containers:
  "((\<forall>i\<in>set items. line \<le> near i \<and> 0 < extent i) \<longrightarrow>
      every_side near extent line items [] [] = (True, [], items))
   \<and> list_all valid_item gap_layout \<and> 1 < length gap_layout
   \<and> (\<exists>reg. convertLayout gap_layout c = Some reg
         \<and> map_of reg (''DASHBOARD_ROW_TYPE-'' @ string_of_nat (c + 2)) = Some (empty_row (c + 2)))
   \<and> list_all valid_item offset_layout \<and> 1 < length offset_layout
   \<and> (\<exists>reg. convertLayout offset_layout c = Some reg
         \<and> map_of reg (''DASHBOARD_COLUMN_TYPE-'' @ string_of_nat (c + 3)) = Some (empty_column (c + 3))
         \<and> map_of reg (''DASHBOARD_COLUMN_TYPE-'' @ string_of_nat (c + 4)) = Some (empty_column (c + 4)))"
proof -
  have "(\<forall>i\<in>set items. line \<le> near i \<and> 0 < extent i) \<longrightarrow>
      every_side near extent line items [] [] = (True, [], items)"
    using every_side_all_upper [of items line near extent "[]" "[]"] by simp
  moreover have "list_all valid_item gap_layout \<and> 1 < length gap_layout
      \<and> list_all valid_item offset_layout \<and> 1 < length offset_layout"
    by (simp add: gap_layout_def offset_layout_def valid_item_def)
  ultimately show ?thesis
    using gap_layout_empty_row [of "c + 2" c] offset_layout_empty_column [of c] by blast
qed

theorem empty_containers_witness:
  "every_side row size_y 1 [\<lparr>row = 2, col = 0, size_x = 1, size_y = 1, slice_id = ''b''\<rparr>] [] []
     = (True, [], [\<lparr>row = 2, col = 0, size_x = 1, size_y = 1, slice_id = ''b''\<rparr>])"
  using empty_containers
    [of "[\<lparr>row = 2, col = 0, size_x = 1, size_y = 1, slice_id = ''b''\<rparr>]" 1 row size_y 1]
  by simp

section \<open>The registry as a store\<close>

lemma assign_fresh: "k \<notin> set (keys reg) \<Longrightarrow> assign k v reg = reg @ [(k, v)]"
  by (induction reg) (auto simp: keys_def)

lemma keys_modify [simp]: "keys (modify k f reg) = keys reg"
  by (induction reg) (auto simp: keys_def)

lemma keys_append [simp]: "keys (reg @ r) = keys reg @ keys r"
  by (simp add: keys_def)

lemma keys_single [simp]: "keys [(k, n)] = [k]"
  by (simp add: keys_def)

lemma modify_append: "k \<in> set (keys reg) \<Longrightarrow> modify k f (reg @ r) = modify k f reg @ r"
  by (induction reg) (auto simp: keys_def)

lemma map_of_modify:
  "map_of (modify k f reg) x = (if x = k then map_option f (map_of reg k) else map_of reg x)"
  by (induction reg) auto

lemma all_children_append [simp]:
  "all_children (reg @ r) = all_children reg @ all_children r"
  by (simp add: all_children_def)

lemma all_children_single [simp]: "all_children [(k, n)] = children n"
  by (simp add: all_children_def)

lemma all_children_push:
  "k \<in> set (keys reg) \<Longrightarrow>
     mset (all_children (modify k (\<lambda>n. n\<lparr>children := children n @ [c]\<rparr>) reg))
       = mset (all_children reg) + {#c#}"
  by (induction reg) (auto simp: keys_def all_children_def)

lemma all_children_modify_same:
  "(\<And>n. children (f n) = children n) \<Longrightarrow> all_children (modify k f reg) = all_children reg"
  by (induction reg) (auto simp: all_children_def)

lemma leaf_metas_append [simp]: "leaf_metas (reg @ r) = leaf_metas reg @ leaf_metas r"
  by (simp add: leaf_metas_def)

lemma leaf_metas_modify_same:
  "(\<And>n. ntype (f n) = ntype n) \<Longrightarrow> (\<And>n. meta (f n) = meta n) \<Longrightarrow>
     leaf_metas (modify k f reg) = leaf_metas reg"
  by (induction reg) (auto simp: leaf_metas_def)

lemma leaf_metas_modify_container:
  "map_of reg k = Some n \<Longrightarrow> ntype n \<noteq> DASHBOARD_CHART_TYPE \<Longrightarrow> (\<And>n. ntype (f n) = ntype n) \<Longrightarrow>
     leaf_metas (modify k f reg) = leaf_metas reg"
  by (induction reg) (auto simp: leaf_metas_def split: if_splits)

lemma map_of_keys: "k \<in> set (keys reg) \<longleftrightarrow> (\<exists>n. map_of reg k = Some n)"
  by (induction reg) (auto simp: keys_def)

lemma child_width_cong: "map_of reg' c = map_of reg c \<Longrightarrow> child_width reg' c = child_width reg c"
  by (simp add: child_width_def)

lemma child_width_closed:
  "child_width reg c = Some w \<Longrightarrow> w \<noteq> NaN \<Longrightarrow> \<exists>n. map_of reg c = Some n \<and> has_width n"
  by (auto simp: child_width_def has_width_def split: option.splits)

lemma closed_child_width:
  "map_of reg c = Some n \<Longrightarrow> has_width n \<Longrightarrow> \<exists>w. child_width reg c = Some w"
  by (auto simp: child_width_def has_width_def split: option.splits)

lemma those_map_cong:
  "(\<And>x. x \<in> set xs \<Longrightarrow> f x = g x) \<Longrightarrow> those (map f xs) = those (map g xs)"
  by (induction xs) (auto split: option.splits)

lemma those_map_Some:
  "those (map f xs) = Some ys \<Longrightarrow> x \<in> set xs \<Longrightarrow> \<exists>y\<in>set ys. f x = Some y"
  by (induction xs arbitrary: ys) (auto split: option.splits)

lemma those_map_defined:
  "(\<And>x. x \<in> set xs \<Longrightarrow> \<exists>y. f x = Some y) \<Longrightarrow> \<exists>ys. those (map f xs) = Some ys"
  by (induction xs) (auto split: option.splits)

lemma those_map_set:
  "those (map f xs) = Some ys \<Longrightarrow> y \<in> set ys \<Longrightarrow> \<exists>x\<in>set xs. f x = Some y"
  by (induction xs arbitrary: ys) (auto split: option.splits)

lemma js_add_NaN: "js_add a b = NaN \<longleftrightarrow> a = NaN \<or> b = NaN"
  by (cases a; cases b) auto

lemma js_max_NaN: "js_max a b = NaN \<longleftrightarrow> a = NaN \<or> b = NaN"
  by (cases a; cases b) auto

lemma foldl_js_add_NaN: "foldl js_add a ws = NaN \<longleftrightarrow> a = NaN \<or> NaN \<in> set ws"
  by (induction ws arbitrary: a) (auto simp: js_add_NaN)

lemma foldl_js_max_NaN: "foldl js_max a ws = NaN \<longleftrightarrow> a = NaN \<or> NaN \<in> set ws"
  by (induction ws arbitrary: a) (auto simp: js_max_NaN)

lemma sum_widths_NaN: "sum_widths ws = NaN \<longleftrightarrow> NaN \<in> set ws"
  by (simp add: sum_widths_def foldl_js_add_NaN)

lemma math_max_NaN: "math_max ws = NaN \<longleftrightarrow> NaN \<in> set ws"
  by (simp add: math_max_def foldl_js_max_NaN)

text \<open>On numbers \<open>sum_widths\<close> is the sum and \<open>math_max\<close> the maximum.\<close>

lemma foldl_js_add_numbers: "foldl js_add (Num a) (map Num xs) = Num (a + sum_list xs)"
  by (induction xs arbitrary: a) simp_all

lemma sum_widths_numbers: "sum_widths (map Num xs) = Num (sum_list xs)"
  by (simp add: sum_widths_def foldl_js_add_numbers)

lemma foldl_js_max_numbers: "foldl js_max (Num a) (map Num xs) = Num (Max (insert a (set xs)))"
proof (induction xs arbitrary: a)
  case Nil
  show ?case by simp
next
  case (Cons x xs)
  have "Max (insert (max a x) (set xs)) = Max (insert a (insert x (set xs)))"
    by (cases "xs = []") (simp_all add: max.assoc)
  with Cons show ?case by simp
qed

lemma math_max_numbers: "math_max (map Num (x # xs)) = Num (Max (set (x # xs)))"
  by (simp add: math_max_def foldl_js_max_numbers)

lemma math_max_empty: "math_max [] = NegInfinity"
  by (simp add: math_max_def)

lemma is_gen_id_inj: "is_gen_id n k \<Longrightarrow> is_gen_id m k \<Longrightarrow> n = m"
  by (auto simp: is_gen_id_def)

lemma root_not_gen_id: "\<not> is_gen_id n ''DASHBOARD_ROOT_ID''"
  by (simp add: is_gen_id_def)

section \<open>Statements preserve the invariant\<close>

lemma law_preserved:
  assumes law: "\<forall>k n. map_of reg k = Some n \<longrightarrow> width_law reg n"
    and kept: "\<forall>k n. map_of reg k = Some n \<longrightarrow> has_width n \<longrightarrow> map_of reg' k = Some n"
    and new: "\<forall>k n. map_of reg' k = Some n \<longrightarrow> has_width n \<longrightarrow>
                 map_of reg k = Some n \<or> width_law reg' n"
  shows "\<forall>k n. map_of reg' k = Some n \<longrightarrow> width_law reg' n"
proof (intro allI impI)
  fix k n assume kn: "map_of reg' k = Some n"
  show "width_law reg' n"
  proof (cases "has_width n")
    case False
    then show ?thesis by (auto simp: width_law_def has_width_def)
  next
    case True
    with new kn consider "map_of reg k = Some n" | "width_law reg' n" by blast
    then show ?thesis
    proof cases
      case 1
      with law have wl: "width_law reg n" by blast
      have same: "those (map (child_width reg') (children n)) = those (map (child_width reg) (children n))"
        if ws: "those (map (child_width reg) (children n)) = Some ws" and nn: "NaN \<notin> set ws" for ws
      proof (rule those_map_cong)
        fix c assume "c \<in> set (children n)"
        with ws obtain w where w: "w \<in> set ws" "child_width reg c = Some w"
          by (meson those_map_Some)
        with nn have "w \<noteq> NaN" by auto
        with w obtain n' where "map_of reg c = Some n'" "has_width n'"
          using child_width_closed by blast
        with kept have "map_of reg' c = map_of reg c" by simp
        then show "child_width reg' c = child_width reg c" by (rule child_width_cong)
      qed
      show ?thesis
        unfolding width_law_def
      proof (intro allI impI conjI)
        fix m w assume mw: "meta n = Some m" "width m = Some w"
        from wl mw show "w \<noteq> NaN" by (auto simp: width_law_def)
        { assume "ntype n = DASHBOARD_ROW_TYPE"
          with wl mw obtain ws where ws: "those (map (child_width reg) (children n)) = Some ws"
            "w = sum_widths ws" "w \<noteq> NaN" by (auto simp: width_law_def)
          then have "NaN \<notin> set ws" by (simp add: sum_widths_NaN)
          with same ws show "\<exists>ws. those (map (child_width reg') (children n)) = Some ws \<and> w = sum_widths ws"
            by auto }
        { assume "ntype n = DASHBOARD_COLUMN_TYPE"
          with wl mw obtain ws where ws: "those (map (child_width reg) (children n)) = Some ws"
            "w = math_max ws" "w \<noteq> NaN" by (auto simp: width_law_def)
          then have "NaN \<notin> set ws" by (simp add: math_max_NaN)
          with same ws show "\<exists>ws. those (map (child_width reg') (children n)) = Some ws \<and> w = math_max ws"
            by auto }
      qed
    qed
  qed
qed

lemma inv_lookup_parent:
  assumes "pre opens parent st"
  obtains p where "map_of (root st) parent = Some p" "\<not> has_width p"
proof -
  from assms have "parent \<in> set (keys (root st))" by (auto simp: pre_def conv_inv_def)
  then obtain p where p: "map_of (root st) parent = Some p" by (auto simp: map_of_keys)
  with assms have "\<not> has_width p" by (auto simp: pre_def conv_inv_def)
  with p that show thesis by blast
qed

lemma closed_width_not_NaN:
  assumes "conv_inv opens st" and "map_of (root st) c = Some n" and "has_width n"
  shows "\<exists>w. child_width (root st) c = Some w \<and> w \<noteq> NaN"
proof -
  from assms(3) obtain m w where mw: "meta n = Some m" "width m = Some w"
    by (auto simp: has_width_def split: option.splits)
  from assms(1,2) have "width_law (root st) n" by (auto simp: conv_inv_def)
  with mw have "w \<noteq> NaN" by (auto simp: width_law_def)
  with mw assms(2) show ?thesis by (simp add: child_width_def)
qed

text \<open>
  Creating a node, registering it and pushing its id to the parent: the three statements
  that every node of the tree starts with.
\<close>

lemma attach:
  assumes pre: "pre opens parent s"
    and gen: "is_gen_id (componentId s) (node_id nd)"
    and kids: "children nd = []"
    and closed: "has_width nd \<longrightarrow> ntype nd = DASHBOARD_CHART_TYPE \<and> (\<exists>m x. meta nd = Some m \<and> width m = Some (Num x))"
    and s2: "s2 = push_child parent (node_id nd) (register nd (s\<lparr>componentId := Suc (componentId s)\<rparr>))"
    and opens': "opens' = (if has_width nd then opens else insert (node_id nd) opens)"
  shows "node_id nd \<notin> set (keys (root s))"
    and "root s2 = modify parent (\<lambda>n. n\<lparr>children := children n @ [node_id nd]\<rparr>) (root s) @ [(node_id nd, nd)]"
    and "conv_inv opens' s2"
    and "map_of (root s2) (node_id nd) = Some nd"
    and "\<forall>k n. map_of (root s) k = Some n \<longrightarrow> k \<noteq> parent \<longrightarrow> map_of (root s2) k = Some n"
    and "\<exists>p. map_of (root s) parent = Some p \<and> map_of (root s2) parent = Some (p\<lparr>children := children p @ [node_id nd]\<rparr>)"
proof -
  let ?k = "node_id nd"
  let ?push = "\<lambda>n. n\<lparr>children := children n @ [?k]\<rparr>"
  from pre have inv: "conv_inv opens s" and par: "parent \<in> opens" by (auto simp: pre_def)
  from inv par have pk: "parent \<in> set (keys (root s))" by (auto simp: conv_inv_def)
  from inv gen show fresh: "?k \<notin> set (keys (root s))" by (auto simp: conv_inv_def)
  with pk have pne: "parent \<noteq> ?k" by auto
  from fresh pk show root2: "root s2 = modify parent ?push (root s) @ [(?k, nd)]"
    by (simp add: s2 push_child_def register_def assign_fresh modify_append)
  have cid: "componentId s2 = Suc (componentId s)"
    by (simp add: s2 push_child_def register_def)
  have keys2: "keys (root s2) = keys (root s) @ [?k]"
    by (simp add: root2)
  obtain p where p: "map_of (root s) parent = Some p" "\<not> has_width p"
    using pre by (rule inv_lookup_parent)
  have lookup: "map_of (root s2) k = (if k = parent then Some (?push p) else if k = ?k then Some nd else map_of (root s) k)" for k
    using fresh p pne
    by (auto simp: root2 map_add_def map_of_modify map_of_keys split: option.splits)
  from lookup pne show "map_of (root s2) ?k = Some nd" by simp
  from lookup fresh show "\<forall>k n. map_of (root s) k = Some n \<longrightarrow> k \<noteq> parent \<longrightarrow> map_of (root s2) k = Some n"
    by (auto simp: map_of_keys)
  from lookup p show "\<exists>p. map_of (root s) parent = Some p \<and> map_of (root s2) parent = Some (p\<lparr>children := children p @ [?k]\<rparr>)"
    by simp
  have hw_push: "has_width (?push p) = has_width p" by (simp add: has_width_def)
  show "conv_inv opens' s2"
    unfolding conv_inv_def
  proof (intro conjI)
    show "distinct (keys (root s2))" using inv fresh by (simp add: keys2 conv_inv_def)
    show "mset (all_children (root s2)) + {#''DASHBOARD_ROOT_ID''#} = mset (keys (root s2))"
      using inv pk by (simp add: root2 all_children_push kids conv_inv_def)
    show "\<forall>k\<in>set (keys (root s2)). \<forall>n\<ge>componentId s2. \<not> is_gen_id n k"
    proof (intro ballI allI impI)
      fix k n assume k: "k \<in> set (keys (root s2))" and n: "componentId s2 \<le> n"
      show "\<not> is_gen_id n k"
      proof (cases "k = ?k")
        case True
        with gen n cid show ?thesis using is_gen_id_inj by fastforce
      next
        case False
        with k keys2 have "k \<in> set (keys (root s))" by simp
        with inv n cid show ?thesis by (auto simp: conv_inv_def)
      qed
    qed
    show "opens' \<subseteq> set (keys (root s2))" using inv by (auto simp: opens' keys2 conv_inv_def)
    show "\<forall>k n. map_of (root s2) k = Some n \<longrightarrow> (has_width n \<longleftrightarrow> k \<notin> opens')"
    proof (intro allI impI)
      fix k n assume kn: "map_of (root s2) k = Some n"
      have kopen: "?k \<notin> opens" using inv fresh by (auto simp: conv_inv_def)
      consider "k = parent" | "k \<noteq> parent" "k = ?k" | "k \<noteq> parent" "k \<noteq> ?k" by blast
      then show "has_width n \<longleftrightarrow> k \<notin> opens'"
      proof cases
        case 1
        with kn lookup have "n = ?push p" by simp
        with 1 p par hw_push show ?thesis by (simp add: opens')
      next
        case 2
        with kn lookup have "n = nd" by simp
        with 2 kopen show ?thesis by (simp add: opens')
      next
        case 3
        with kn lookup have "map_of (root s) k = Some n" by simp
        with inv 3 show ?thesis by (auto simp: opens' conv_inv_def)
      qed
    qed
    show "\<forall>k n. map_of (root s2) k = Some n \<longrightarrow> width_law (root s2) n"
    proof (rule law_preserved [where reg = "root s"])
      show "\<forall>k n. map_of (root s) k = Some n \<longrightarrow> width_law (root s) n"
        using inv by (simp add: conv_inv_def)
      show "\<forall>k n. map_of (root s) k = Some n \<longrightarrow> has_width n \<longrightarrow> map_of (root s2) k = Some n"
        using lookup p fresh by (auto simp: map_of_keys)
      show "\<forall>k n. map_of (root s2) k = Some n \<longrightarrow> has_width n \<longrightarrow>
                 map_of (root s) k = Some n \<or> width_law (root s2) n"
      proof (intro allI impI)
        fix k n assume kn: "map_of (root s2) k = Some n" and hw: "has_width n"
        consider "k = parent" | "k \<noteq> parent" "k = ?k" | "k \<noteq> parent" "k \<noteq> ?k" by blast
        then show "map_of (root s) k = Some n \<or> width_law (root s2) n"
        proof cases
          case 1
          with kn lookup have "n = ?push p" by simp
          with hw p hw_push show ?thesis by simp
        next
          case 2
          with kn lookup have "n = nd" by simp
          with hw closed show ?thesis by (auto simp: width_law_def)
        next
          case 3
          with kn lookup show ?thesis by simp
        qed
      qed
    qed
  qed
qed
lemma step_refl: "pre opens parent st \<Longrightarrow> step opens parent {#} st st"
proof -
  assume p: "pre opens parent st"
  then obtain n where "map_of (root st) parent = Some n" by (rule inv_lookup_parent)
  then have "\<exists>p new. map_of (root st) parent = Some p
           \<and> map_of (root st) parent = Some (p\<lparr>children := children p @ new\<rparr>)
           \<and> (\<forall>c\<in>set new. \<exists>n. map_of (root st) c = Some n \<and> has_width n)"
    by (intro exI [of _ n] exI [of _ "[]"]) simp
  with p show ?thesis by (simp add: step_def pre_def)
qed

lemma step_pre: "step opens parent E st st' \<Longrightarrow> parent \<in> opens \<Longrightarrow> pre opens parent st'"
  by (simp add: step_def pre_def)

lemma step_trans:
  assumes 1: "step opens parent E1 st st'" and 2: "step opens parent E2 st' st''"
    and par: "parent \<in> opens"
  shows "step opens parent (E1 + E2) st st''"
proof -
  from 1 obtain p new1 where p: "map_of (root st) parent = Some p"
      "map_of (root st') parent = Some (p\<lparr>children := children p @ new1\<rparr>)"
      "\<forall>c\<in>set new1. \<exists>n. map_of (root st') c = Some n \<and> has_width n"
    by (auto simp: step_def)
  from 2 p(2) obtain new2 where q:
      "map_of (root st'') parent = Some (p\<lparr>children := children p @ new1 @ new2\<rparr>)"
      "\<forall>c\<in>set new2. \<exists>n. map_of (root st'') c = Some n \<and> has_width n"
    by (auto simp: step_def)
  from 1 have inv': "conv_inv opens st'" by (simp add: step_def)
  have "\<exists>n. map_of (root st'') c = Some n \<and> has_width n" if "c \<in> set new1" for c
  proof -
    from that p(3) obtain n where n: "map_of (root st') c = Some n" "has_width n" by blast
    with inv' have "c \<notin> opens" by (auto simp: conv_inv_def)
    with par have "c \<noteq> parent" by auto
    with 2 n show ?thesis by (auto simp: step_def)
  qed
  with q(2) have closed: "\<forall>c\<in>set (new1 @ new2). \<exists>n. map_of (root st'') c = Some n \<and> has_width n"
    by auto
  have frame: "\<forall>k n. map_of (root st) k = Some n \<longrightarrow> k \<noteq> parent \<longrightarrow> map_of (root st'') k = Some n"
    using 1 2 by (simp add: step_def)
  have leaves: "mset (leaf_metas (root st'')) = mset (leaf_metas (root st)) + image_mset (\<lambda>i. Some (chart_meta i)) (E1 + E2)"
    using 1 2 by (simp add: step_def)
  from 2 have "conv_inv opens st''" by (simp add: step_def)
  with frame leaves p(1) q(1) closed show ?thesis
    unfolding step_def by blast
qed

lemma getChartHolder_eq:
  "getChartHolder i s =
     (\<lparr>version = ''v2'', ntype = DASHBOARD_CHART_TYPE,
       node_id = ''DASHBOARD_CHART_TYPE-'' @ string_of_nat (componentId s), children = [],
       meta = Some (chart_meta i)\<rparr>, s\<lparr>componentId := Suc (componentId s)\<rparr>)"
  by (simp add: getChartHolder_def generateId_def)

lemma add_chart_step:
  assumes pre: "pre opens parent s"
  shows "step opens parent {#i#} s (add_chart parent s i)"
proof -
  define nd where "nd = fst (getChartHolder i s)"
  define s2 where "s2 = add_chart parent s i"
  have nd: "ntype nd = DASHBOARD_CHART_TYPE" "children nd = []" "meta nd = Some (chart_meta i)"
    "node_id nd = ''DASHBOARD_CHART_TYPE-'' @ string_of_nat (componentId s)"
    by (simp_all add: nd_def getChartHolder_eq)
  have hw: "has_width nd" by (simp add: has_width_def nd chart_meta_def)
  have s2: "s2 = push_child parent (node_id nd) (register nd (s\<lparr>componentId := Suc (componentId s)\<rparr>))"
    by (simp add: s2_def add_chart_def nd_def getChartHolder_eq)
  have gen: "is_gen_id (componentId s) (node_id nd)" by (simp add: is_gen_id_def nd)
  have cl: "has_width nd \<longrightarrow> ntype nd = DASHBOARD_CHART_TYPE \<and> (\<exists>m x. meta nd = Some m \<and> width m = Some (Num x))"
    by (simp add: nd chart_meta_def)
  note a = attach [OF pre gen nd(2) cl s2 refl]
  from a(3) hw have inv2: "conv_inv opens s2" by simp
  from a(6) obtain p where p: "map_of (root s) parent = Some p"
    "map_of (root s2) parent = Some (p\<lparr>children := children p @ [node_id nd]\<rparr>)" by blast
  have closed: "\<forall>c\<in>set [node_id nd]. \<exists>n. map_of (root s2) c = Some n \<and> has_width n"
    using a(4) hw by simp
  have "leaf_metas (root s2) = leaf_metas (root s) @ [Some (chart_meta i)]"
    by (simp add: a(2) leaf_metas_modify_same) (simp add: leaf_metas_def nd)
  then have leaves: "mset (leaf_metas (root s2)) = mset (leaf_metas (root s)) + image_mset (\<lambda>i. Some (chart_meta i)) {#i#}"
    by simp
  from inv2 a(5) p closed leaves show ?thesis
    unfolding step_def s2_def [symmetric] by blast
qed

lemma add_charts_step:
  "pre opens parent s \<Longrightarrow> step opens parent (mset items) s (foldl (add_chart parent) s items)"
proof (induction items arbitrary: s)
  case Nil
  then show ?case by (simp add: step_refl)
next
  case (Cons i items)
  from Cons.prems have par: "parent \<in> opens" by (simp add: pre_def)
  have 1: "step opens parent {#i#} s (add_chart parent s i)"
    using Cons.prems by (rule add_chart_step)
  then have "pre opens parent (add_chart parent s i)" using par by (rule step_pre)
  then have "step opens parent (mset items) (add_chart parent s i) (foldl (add_chart parent) (add_chart parent s i) items)"
    by (rule Cons.IH)
  with 1 have "step opens parent ({#i#} + mset items) s (foldl (add_chart parent) (add_chart parent s i) items)"
    using par by (rule step_trans)
  then show ?case by simp
qed

text \<open>
  A container from its creation to the assignment of its width: once its children are in
  place, all of them with a width, the width can be read, and the whole is one step of the
  enclosing parent.
\<close>

lemma close_container:
  assumes pre: "pre opens parent s"
    and gen: "is_gen_id (componentId s) (node_id nd)"
    and kids: "children nd = []"
    and meta: "meta nd = Some m0" "width m0 = None"
    and ty: "ntype nd \<noteq> DASHBOARD_CHART_TYPE"
    and agg: "ntype nd = DASHBOARD_ROW_TYPE \<longrightarrow> agg = sum_widths"
             "ntype nd = DASHBOARD_COLUMN_TYPE \<longrightarrow> agg = math_max"
             "\<And>ws. NaN \<notin> set ws \<Longrightarrow> agg ws \<noteq> NaN"
    and s2: "s2 = push_child parent (node_id nd) (register nd (s\<lparr>componentId := Suc (componentId s)\<rparr>))"
    and fill: "step (insert (node_id nd) opens) (node_id nd) E s2 s3"
  shows "\<exists>ws. those (map (child_width (root s3)) (children_of (root s3) (node_id nd))) = Some ws
           \<and> step opens parent E s (set_width (node_id nd) (agg ws) s3)"
proof -
  let ?k = "node_id nd"
  let ?opens = "insert ?k opens"
  have nhw: "\<not> has_width nd" by (simp add: has_width_def meta)
  then have cl: "has_width nd \<longrightarrow> ntype nd = DASHBOARD_CHART_TYPE \<and> (\<exists>m x. meta nd = Some m \<and> width m = Some (Num x))"
    by simp
  have op: "?opens = (if has_width nd then opens else insert ?k opens)" using nhw by simp
  note a = attach [OF pre gen kids cl s2 op]
  from pre have inv: "conv_inv opens s" and par: "parent \<in> opens" by (auto simp: pre_def)
  from inv a(1) have kopen: "?k \<notin> opens" by (auto simp: conv_inv_def)
  with par have pne: "parent \<noteq> ?k" by auto
  from fill have inv3: "conv_inv ?opens s3" by (simp add: step_def)
  from fill a(4) kids obtain new where new: "map_of (root s3) ?k = Some (nd\<lparr>children := new\<rparr>)"
      "\<forall>c\<in>set new. \<exists>n. map_of (root s3) c = Some n \<and> has_width n"
    by (auto simp: step_def)
  have kids3: "children_of (root s3) ?k = new" by (simp add: children_of_def new)
  have cw: "\<exists>w. child_width (root s3) c = Some w \<and> w \<noteq> NaN" if "c \<in> set new" for c
    using that new(2) inv3 closed_width_not_NaN by blast
  then obtain ws where ws: "those (map (child_width (root s3)) new) = Some ws"
    using those_map_defined [of new "child_width (root s3)"] by blast
  have nn: "NaN \<notin> set ws"
  proof
    assume "NaN \<in> set ws"
    with ws obtain c where "c \<in> set new" "child_width (root s3) c = Some NaN"
      by (meson those_map_set)
    with cw show False by fastforce
  qed
  then have wn: "agg ws \<noteq> NaN" by (rule agg(3))
  define s4 where "s4 = set_width ?k (agg ws) s3"
  let ?setw = "\<lambda>n. n\<lparr>meta := map_option (\<lambda>m. m\<lparr>width := Some (agg ws)\<rparr>) (meta n)\<rparr>"
  have root4: "root s4 = modify ?k ?setw (root s3)" and cid4: "componentId s4 = componentId s3"
    by (simp_all add: s4_def set_width_def)
  define nd4 where "nd4 = ?setw (nd\<lparr>children := new\<rparr>)"
  have lookup4: "map_of (root s4) k = (if k = ?k then Some nd4 else map_of (root s3) k)" for k
    by (simp add: root4 map_of_modify new nd4_def)
  have hw4: "has_width nd4" by (simp add: nd4_def has_width_def meta)
  have closed_ne: "c \<noteq> ?k" if "map_of (root s3) c = Some n" "has_width n" for c n
    using that inv3 by (auto simp: conv_inv_def)
  have law4: "width_law (root s4) nd4"
  proof -
    have "those (map (child_width (root s4)) new) = those (map (child_width (root s3)) new)"
    proof (rule those_map_cong)
      fix c assume "c \<in> set new"
      with new(2) closed_ne have "c \<noteq> ?k" by blast
      then show "child_width (root s4) c = child_width (root s3) c"
        by (intro child_width_cong) (simp add: lookup4)
    qed
    with ws wn agg(1,2) show ?thesis
      by (auto simp: width_law_def nd4_def meta)
  qed
  have inv4: "conv_inv opens s4"
    unfolding conv_inv_def
  proof (intro conjI)
    show "distinct (keys (root s4))" using inv3 by (simp add: root4 conv_inv_def)
    show "mset (all_children (root s4)) + {#''DASHBOARD_ROOT_ID''#} = mset (keys (root s4))"
      using inv3 by (simp add: root4 all_children_modify_same conv_inv_def)
    show "\<forall>k\<in>set (keys (root s4)). \<forall>n\<ge>componentId s4. \<not> is_gen_id n k"
      using inv3 by (simp add: root4 cid4 conv_inv_def)
    show "opens \<subseteq> set (keys (root s4))" using inv3 by (auto simp: root4 conv_inv_def)
    show "\<forall>k n. map_of (root s4) k = Some n \<longrightarrow> (has_width n \<longleftrightarrow> k \<notin> opens)"
      using inv3 hw4 kopen by (auto simp: lookup4 conv_inv_def split: if_splits)
    show "\<forall>k n. map_of (root s4) k = Some n \<longrightarrow> width_law (root s4) n"
    proof (rule law_preserved [where reg = "root s3"])
      show "\<forall>k n. map_of (root s3) k = Some n \<longrightarrow> width_law (root s3) n"
        using inv3 by (simp add: conv_inv_def)
      show "\<forall>k n. map_of (root s3) k = Some n \<longrightarrow> has_width n \<longrightarrow> map_of (root s4) k = Some n"
        using closed_ne by (auto simp: lookup4)
      show "\<forall>k n. map_of (root s4) k = Some n \<longrightarrow> has_width n \<longrightarrow>
                 map_of (root s3) k = Some n \<or> width_law (root s4) n"
        using law4 by (auto simp: lookup4 split: if_splits)
    qed
  qed
  have frame: "\<forall>k n. map_of (root s) k = Some n \<longrightarrow> k \<noteq> parent \<longrightarrow> map_of (root s4) k = Some n"
  proof (intro allI impI)
    fix k n assume kn: "map_of (root s) k = Some n" "k \<noteq> parent"
    then have "k \<noteq> ?k" using a(1) by (auto simp: map_of_keys)
    moreover from kn a(5) have "map_of (root s2) k = Some n" by blast
    ultimately have "map_of (root s3) k = Some n" using fill by (auto simp: step_def)
    with \<open>k \<noteq> ?k\<close> show "map_of (root s4) k = Some n" by (simp add: lookup4)
  qed
  from a(6) obtain p where p: "map_of (root s) parent = Some p"
    "map_of (root s2) parent = Some (p\<lparr>children := children p @ [?k]\<rparr>)" by blast
  from p(2) pne fill have "map_of (root s3) parent = Some (p\<lparr>children := children p @ [?k]\<rparr>)"
    by (auto simp: step_def)
  with pne have p4: "map_of (root s4) parent = Some (p\<lparr>children := children p @ [?k]\<rparr>)"
    by (simp add: lookup4)
  have closed: "\<forall>c\<in>set [?k]. \<exists>n. map_of (root s4) c = Some n \<and> has_width n"
    using hw4 by (simp add: lookup4)
  have "leaf_metas (root s2) = leaf_metas (root s)"
    by (simp add: a(2) leaf_metas_modify_same) (simp add: leaf_metas_def ty)
  moreover have "leaf_metas (root s4) = leaf_metas (root s3)"
    unfolding root4 by (rule leaf_metas_modify_container [OF new(1)]) (simp_all add: ty)
  ultimately have leaves: "mset (leaf_metas (root s4)) = mset (leaf_metas (root s)) + image_mset (\<lambda>i. Some (chart_meta i)) E"
    using fill by (simp add: step_def)
  from inv4 frame p(1) p4 closed leaves have "step opens parent E s s4"
    unfolding step_def by blast
  with ws kids3 show ?thesis by (auto simp: s4_def)
qed

section \<open>The divider scans lose no item\<close>

lemma every_side_True:
  "every_side near extent line items lower upper = (True, l, u) \<Longrightarrow>
     l = lower @ filter (\<lambda>i. near i + extent i \<le> line) items
     \<and> u = upper @ filter (\<lambda>i. \<not> near i + extent i \<le> line) items"
proof (induction items arbitrary: lower upper)
  case Nil
  then show ?case by simp
next
  case (Cons a items)
  show ?case
  proof (cases "near a + extent a \<le> line")
    case True
    with Cons.prems have "every_side near extent line items (lower @ [a]) upper = (True, l, u)" by simp
    from Cons.IH [OF this] True show ?thesis by simp
  next
    case False
    with Cons.prems have "every_side near extent line items lower (upper @ [a]) = (True, l, u)"
      by (simp split: if_splits)
    from Cons.IH [OF this] False show ?thesis by simp
  qed
qed

lemma every_side_False:
  "every_side near extent line items lower upper = (False, l, u) \<Longrightarrow>
     \<exists>i\<in>set items. \<not> near i + extent i \<le> line"
  by (induction items arbitrary: lower upper) (auto split: if_splits)

lemma every_side_mset:
  assumes "every_side near extent line items [] [] = (True, l, u)"
  shows "mset l + mset u = mset items" and "set l \<subseteq> set items" and "set u \<subseteq> set items"
    and "\<forall>i\<in>set items. near i + extent i \<le> line \<Longrightarrow> u = []"
  using every_side_True [OF assms] by (auto simp: filter_empty_conv)

lemma rowScan_subset:
  "set (concat (rowScan currentRow bottom currentItems layers))
     \<subseteq> set (concat layers) \<union> set currentItems"
proof (induction currentRow bottom currentItems layers rule: rowScan.induct)
  case (1 currentRow bottom currentItems layers)
  show ?case
  proof (cases "currentItems \<noteq> [] \<and> currentRow \<le> bottom")
    case False
    then show ?thesis by (subst rowScan.simps) auto
  next
    case True
    obtain b l u where e: "every_side row size_y currentRow currentItems [] [] = (b, l, u)"
      by (cases "every_side row size_y currentRow currentItems [] []") auto
    show ?thesis
    proof (cases b)
      case True
      with e have e': "every_side row size_y currentRow currentItems [] [] = (True, l, u)" by simp
      from "1.IH"(1) [OF \<open>currentItems \<noteq> [] \<and> currentRow \<le> bottom\<close> e' [symmetric] refl refl]
      have "set (concat (rowScan (currentRow + 1) bottom u (layers @ [l]))) \<subseteq> set (concat (layers @ [l])) \<union> set u"
        by simp
      moreover have "rowScan currentRow bottom currentItems layers = rowScan (currentRow + 1) bottom u (layers @ [l])"
        using \<open>currentItems \<noteq> [] \<and> currentRow \<le> bottom\<close> e' by (subst rowScan.simps) simp
      ultimately show ?thesis using every_side_mset(2,3) [OF e'] by auto
    next
      case False
      with e have e': "every_side row size_y currentRow currentItems [] [] = (False, l, u)" by simp
      from "1.IH"(2) [OF \<open>currentItems \<noteq> [] \<and> currentRow \<le> bottom\<close> e' [symmetric] refl refl]
      have "set (concat (rowScan (currentRow + 1) bottom currentItems layers)) \<subseteq> set (concat layers) \<union> set currentItems"
        by simp
      moreover have "rowScan currentRow bottom currentItems layers = rowScan (currentRow + 1) bottom currentItems layers"
        using \<open>currentItems \<noteq> [] \<and> currentRow \<le> bottom\<close> e' by (subst rowScan.simps) simp
      ultimately show ?thesis by simp
    qed
  qed
qed

lemma rowScan_mset:
  "(\<forall>i\<in>set currentItems. row i + size_y i \<le> bottom) \<Longrightarrow> (currentItems \<noteq> [] \<longrightarrow> currentRow \<le> bottom) \<Longrightarrow>
     mset (concat (rowScan currentRow bottom currentItems layers))
       = mset (concat layers) + mset currentItems"
proof (induction currentRow bottom currentItems layers rule: rowScan.induct)
  case (1 currentRow bottom currentItems layers)
  show ?case
  proof (cases "currentItems \<noteq> [] \<and> currentRow \<le> bottom")
    case False
    with "1.prems" have "currentItems = []" by auto
    then show ?thesis by (subst rowScan.simps) auto
  next
    case True
    obtain b l u where e: "every_side row size_y currentRow currentItems [] [] = (b, l, u)"
      by (cases "every_side row size_y currentRow currentItems [] []") auto
    show ?thesis
    proof (cases b)
      case True
      with e have e': "every_side row size_y currentRow currentItems [] [] = (True, l, u)" by simp
      note m = every_side_mset [OF e']
      have bound: "\<forall>i\<in>set u. row i + size_y i \<le> bottom" using "1.prems"(1) m(3) by auto
      have next_ok: "u \<noteq> [] \<longrightarrow> currentRow + 1 \<le> bottom"
      proof
        assume "u \<noteq> []"
        show "currentRow + 1 \<le> bottom"
        proof (rule ccontr)
          assume "\<not> currentRow + 1 \<le> bottom"
          with \<open>currentItems \<noteq> [] \<and> currentRow \<le> bottom\<close> have "currentRow = bottom" by simp
          with "1.prems"(1) have "\<forall>i\<in>set currentItems. row i + size_y i \<le> currentRow" by simp
          then have "u = []" by (rule m(4))
          with \<open>u \<noteq> []\<close> show False by simp
        qed
      qed
      from "1.IH"(1) [OF \<open>currentItems \<noteq> [] \<and> currentRow \<le> bottom\<close> e' [symmetric] refl refl bound next_ok]
      have "mset (concat (rowScan (currentRow + 1) bottom u (layers @ [l]))) = mset (concat (layers @ [l])) + mset u"
        by simp
      moreover have "rowScan currentRow bottom currentItems layers = rowScan (currentRow + 1) bottom u (layers @ [l])"
        using \<open>currentItems \<noteq> [] \<and> currentRow \<le> bottom\<close> e' by (subst rowScan.simps) simp
      ultimately show ?thesis using m(1) by (simp add: add.assoc)
    next
      case False
      with e have e': "every_side row size_y currentRow currentItems [] [] = (False, l, u)" by simp
      have next_ok: "currentItems \<noteq> [] \<longrightarrow> currentRow + 1 \<le> bottom"
      proof (intro impI, rule ccontr)
        assume "\<not> currentRow + 1 \<le> bottom"
        with \<open>currentItems \<noteq> [] \<and> currentRow \<le> bottom\<close> have "currentRow = bottom" by simp
        with "1.prems"(1) have "\<forall>i\<in>set currentItems. row i + size_y i \<le> currentRow" by simp
        with every_side_False [OF e'] show False by auto
      qed
      from "1.IH"(2) [OF \<open>currentItems \<noteq> [] \<and> currentRow \<le> bottom\<close> e' [symmetric] refl refl "1.prems"(1) next_ok]
      have "mset (concat (rowScan (currentRow + 1) bottom currentItems layers)) = mset (concat layers) + mset currentItems"
        by simp
      moreover have "rowScan currentRow bottom currentItems layers = rowScan (currentRow + 1) bottom currentItems layers"
        using \<open>currentItems \<noteq> [] \<and> currentRow \<le> bottom\<close> e' by (subst rowScan.simps) simp
      ultimately show ?thesis by simp
    qed
  qed
qed

lemma boundary_bounds:
  assumes "i \<in> set layout"
  shows "b_top (getBoundary layout) \<le> row i" and "b_left (getBoundary layout) \<le> col i"
    and "row i + size_y i \<le> b_bottom (getBoundary layout)"
    and "col i + size_x i \<le> b_right (getBoundary layout)"
  using assms by (auto simp: getBoundary_def foldl_boundary intro: Min_le Max_ge)

lemma mset_insort_cmp: "mset (insort_cmp cmp x ys) = add_mset x (mset ys)"
  by (induction ys) auto

lemma mset_sort_cmp [simp]: "mset (sort_cmp cmp xs) = mset xs"
  by (induction xs) (simp_all add: sort_cmp_def mset_insort_cmp)

section \<open>\<open>doConvert\<close> preserves the invariant\<close>

lemma okI:
  assumes "\<And>st. pre opens parent st \<Longrightarrow> \<exists>st' E'. f st = Some st' \<and> step opens parent E' st st' \<and> (V \<longrightarrow> E' = E)"
  shows "ok opens parent V E f"
  using assms by (simp add: ok_def)

lemma okD:
  assumes "ok opens parent V E f" and "pre opens parent st"
  obtains st' E' where "f st = Some st'" "step opens parent E' st st'" "V \<longrightarrow> E' = E"
  using assms unfolding ok_def by blast

lemma forEach_ok:
  assumes "\<And>x. x \<in> set xs \<Longrightarrow> ok opens parent V (g x) (f x)"
  shows "ok opens parent V (\<Sum>x\<leftarrow>xs. g x) (forEach xs f)"
  using assms
proof (induction xs)
  case Nil
  show ?case by (rule okI) (auto intro: step_refl)
next
  case (Cons x xs)
  show ?case
  proof (rule okI)
    fix st assume pre: "pre opens parent st"
    then have par: "parent \<in> opens" by (simp add: pre_def)
    from Cons.prems have "ok opens parent V (g x) (f x)" by simp
    from this pre obtain s1 E1 where 1: "f x st = Some s1" "step opens parent E1 st s1" "V \<longrightarrow> E1 = g x"
      by (rule okD)
    from 1(2) par have pre1: "pre opens parent s1" by (rule step_pre)
    have "ok opens parent V (\<Sum>x\<leftarrow>xs. g x) (forEach xs f)"
      using Cons.prems by (intro Cons.IH) simp
    from this pre1 obtain s2 E2 where 2: "forEach xs f s1 = Some s2" "step opens parent E2 s1 s2"
        "V \<longrightarrow> E2 = (\<Sum>x\<leftarrow>xs. g x)"
      by (rule okD)
    from 1(2) 2(2) par have "step opens parent (E1 + E2) st s2" by (rule step_trans)
    with 1 2 show "\<exists>st' E'. forEach (x # xs) f st = Some st' \<and> step opens parent E' st st'
        \<and> (V \<longrightarrow> E' = (\<Sum>x\<leftarrow>x # xs. g x))"
      by auto
  qed
qed

lemma getRowContainer_eq:
  "getRowContainer s =
     (\<lparr>version = ''v2'', ntype = DASHBOARD_ROW_TYPE,
       node_id = ''DASHBOARD_ROW_TYPE-'' @ string_of_nat (componentId s), children = [],
       meta = Some \<lparr>rowStyle = Some ''ROW_TRANSPARENT'', width = None, height = None,
                    sliceId = None, meta_row = None, meta_col = None\<rparr>\<rparr>,
      s\<lparr>componentId := Suc (componentId s)\<rparr>)"
  by (simp add: getRowContainer_def generateId_def)

lemma getColContainer_eq:
  "getColContainer s =
     (\<lparr>version = ''v2'', ntype = DASHBOARD_COLUMN_TYPE,
       node_id = ''DASHBOARD_COLUMN_TYPE-'' @ string_of_nat (componentId s), children = [],
       meta = Some \<lparr>rowStyle = None, width = None, height = None,
                    sliceId = None, meta_row = None, meta_col = None\<rparr>\<rparr>,
      s\<lparr>componentId := Suc (componentId s)\<rparr>)"
  by (simp add: getColContainer_def generateId_def)

text \<open>The body of \<open>layers.forEach\<close>: a row container, its children, its width.\<close>

lemma row_body_ok:
  assumes fill: "\<And>k. ok (insert k opens) k V E (F k)"
  shows "ok opens parent V E
           (\<lambda>s. let (rowContainer, s1) = getRowContainer s;
                     s2 = push_child parent (node_id rowContainer) (register rowContainer s1)
                 in case F (node_id rowContainer) s2 of
                      None \<Rightarrow> None
                    | Some s3 \<Rightarrow> add_row_meta (node_id rowContainer) s3)"
proof (rule okI)
  fix s assume pre: "pre opens parent s"
  define nd where "nd = fst (getRowContainer s)"
  define s2 where "s2 = push_child parent (node_id nd) (register nd (s\<lparr>componentId := Suc (componentId s)\<rparr>))"
  have nd: "ntype nd = DASHBOARD_ROW_TYPE" "children nd = []"
    "node_id nd = ''DASHBOARD_ROW_TYPE-'' @ string_of_nat (componentId s)"
    and meta: "meta nd = Some \<lparr>rowStyle = Some ''ROW_TRANSPARENT'', width = None, height = None,
                    sliceId = None, meta_row = None, meta_col = None\<rparr>"
    by (simp_all add: nd_def getRowContainer_eq)
  have gen: "is_gen_id (componentId s) (node_id nd)" by (simp add: is_gen_id_def nd)
  have nhw: "\<not> has_width nd" by (simp add: has_width_def meta)
  then have cl: "has_width nd \<longrightarrow> ntype nd = DASHBOARD_CHART_TYPE \<and> (\<exists>m x. meta nd = Some m \<and> width m = Some (Num x))"
    by simp
  have op: "insert (node_id nd) opens = (if has_width nd then opens else insert (node_id nd) opens)"
    using nhw by simp
  from attach(3) [OF pre gen nd(2) cl s2_def op]
  have "pre (insert (node_id nd) opens) (node_id nd) s2" by (simp add: pre_def)
  with fill [of "node_id nd"] obtain s3 E' where 3: "F (node_id nd) s2 = Some s3"
      "step (insert (node_id nd) opens) (node_id nd) E' s2 s3" "V \<longrightarrow> E' = E"
    by (rule okD)
  from close_container [OF pre gen nd(2) meta _ _ _ _ _ s2_def 3(2), of sum_widths]
  obtain ws where ws: "those (map (child_width (root s3)) (children_of (root s3) (node_id nd))) = Some ws"
      "step opens parent E' s (set_width (node_id nd) (sum_widths ws) s3)"
    by (auto simp: nd sum_widths_NaN)
  have "(let (rowContainer, s1) = getRowContainer s;
             s2 = push_child parent (node_id rowContainer) (register rowContainer s1)
         in case F (node_id rowContainer) s2 of
              None \<Rightarrow> None
            | Some s3 \<Rightarrow> add_row_meta (node_id rowContainer) s3)
        = Some (set_width (node_id nd) (sum_widths ws) s3)"
    using 3(1) ws(1)
    by (simp add: getRowContainer_eq nd_def [symmetric] s2_def [symmetric] add_row_meta_def Let_def
        del: string_of_nat_eq_iff)
       (simp add: nd_def s2_def getRowContainer_eq add_row_meta_def)
  with ws(2) 3(3) show "\<exists>st' E'a. (let (rowContainer, s1) = getRowContainer s;
             s2 = push_child parent (node_id rowContainer) (register rowContainer s1)
         in case F (node_id rowContainer) s2 of
              None \<Rightarrow> None
            | Some s3 \<Rightarrow> add_row_meta (node_id rowContainer) s3) = Some st'
       \<and> step opens parent E'a s st' \<and> (V \<longrightarrow> E'a = E)"
    by auto
qed
lemma col_body_ok:
  assumes fill: "\<And>k. ok (insert k opens) k V E (F k)"
  shows "ok opens parent V E
           (\<lambda>s. let (colContainer, s1) = getColContainer s;
                     s2 = push_child parent (node_id colContainer) (register colContainer s1)
                 in case F (node_id colContainer) s2 of
                      None \<Rightarrow> None
                    | Some s3 \<Rightarrow> add_col_meta (node_id colContainer) s3)"
proof (rule okI)
  fix s assume pre: "pre opens parent s"
  define nd where "nd = fst (getColContainer s)"
  define s2 where "s2 = push_child parent (node_id nd) (register nd (s\<lparr>componentId := Suc (componentId s)\<rparr>))"
  have nd: "ntype nd = DASHBOARD_COLUMN_TYPE" "children nd = []"
    "node_id nd = ''DASHBOARD_COLUMN_TYPE-'' @ string_of_nat (componentId s)"
    and meta: "meta nd = Some \<lparr>rowStyle = None, width = None, height = None,
                    sliceId = None, meta_row = None, meta_col = None\<rparr>"
    by (simp_all add: nd_def getColContainer_eq)
  have gen: "is_gen_id (componentId s) (node_id nd)" by (simp add: is_gen_id_def nd)
  have nhw: "\<not> has_width nd" by (simp add: has_width_def meta)
  then have cl: "has_width nd \<longrightarrow> ntype nd = DASHBOARD_CHART_TYPE \<and> (\<exists>m x. meta nd = Some m \<and> width m = Some (Num x))"
    by simp
  have op: "insert (node_id nd) opens = (if has_width nd then opens else insert (node_id nd) opens)"
    using nhw by simp
  from attach(3) [OF pre gen nd(2) cl s2_def op]
  have "pre (insert (node_id nd) opens) (node_id nd) s2" by (simp add: pre_def)
  with fill [of "node_id nd"] obtain s3 E' where 3: "F (node_id nd) s2 = Some s3"
      "step (insert (node_id nd) opens) (node_id nd) E' s2 s3" "V \<longrightarrow> E' = E"
    by (rule okD)
  from close_container [OF pre gen nd(2) meta _ _ _ _ _ s2_def 3(2), of math_max]
  obtain ws where ws: "those (map (child_width (root s3)) (children_of (root s3) (node_id nd))) = Some ws"
      "step opens parent E' s (set_width (node_id nd) (math_max ws) s3)"
    by (auto simp: nd math_max_NaN)
  have "(let (colContainer, s1) = getColContainer s;
             s2 = push_child parent (node_id colContainer) (register colContainer s1)
         in case F (node_id colContainer) s2 of
              None \<Rightarrow> None
            | Some s3 \<Rightarrow> add_col_meta (node_id colContainer) s3)
        = Some (set_width (node_id nd) (math_max ws) s3)"
    using 3(1) ws(1)
    by (simp add: getColContainer_eq nd_def [symmetric] s2_def [symmetric] add_col_meta_def Let_def
        del: string_of_nat_eq_iff)
       (simp add: nd_def s2_def getColContainer_eq add_col_meta_def)
  with ws(2) 3(3) show "\<exists>st' E'a. (let (colContainer, s1) = getColContainer s;
             s2 = push_child parent (node_id colContainer) (register colContainer s1)
         in case F (node_id colContainer) s2 of
              None \<Rightarrow> None
            | Some s3 \<Rightarrow> add_col_meta (node_id colContainer) s3) = Some st'
       \<and> step opens parent E'a s st' \<and> (V \<longrightarrow> E'a = E)"
    by auto
qed

lemma charts_ok:
  assumes "mset items' = mset items"
  shows "ok opens k V (mset items) (\<lambda>s. Some (foldl (add_chart k) s items'))"
proof (rule okI)
  fix st assume "pre opens k st"
  then have "step opens k (mset items') st (foldl (add_chart k) st items')"
    by (rule add_charts_step)
  with assms show "\<exists>st' E'. Some (foldl (add_chart k) st items') = Some st' \<and> step opens k E' st st'
      \<and> (V \<longrightarrow> E' = mset items)"
    by auto
qed

lemma ok_if:
  assumes "b \<Longrightarrow> ok opens k V E f" and "\<not> b \<Longrightarrow> ok opens k V E g"
  shows "ok opens k V E (\<lambda>s. if b then f s else g s)"
  using assms by (cases b) (simp_all add: ok_def)

lemma new_column_ok:
  assumes rec: "\<And>k opens'. ok opens' k V (mset lower) (rec lower k)"
  shows "ok opens rowId V (mset lower) (new_column rec rowId lower)"
proof -
  have fill: "ok (insert k opens) k V (mset lower)
      (\<lambda>s. if \<not> hasOverlap lower False
            then Some (foldl (add_chart k) s (sort_cmp sortByRowId lower))
            else rec lower k s)" for k
    by (intro ok_if charts_ok rec) simp
  have "new_column rec rowId lower =
     (\<lambda>s. let (colContainer, s1) = getColContainer s;
               s2 = push_child rowId (node_id colContainer) (register colContainer s1)
           in case (if \<not> hasOverlap lower False
            then Some (foldl (add_chart (node_id colContainer)) s2 (sort_cmp sortByRowId lower))
            else rec lower (node_id colContainer) s2) of
                None \<Rightarrow> None
              | Some s3 \<Rightarrow> add_col_meta (node_id colContainer) s3)"
    by (rule ext) (simp add: new_column_def)
  then show ?thesis using col_body_ok [of opens V "mset lower" _ rowId, OF fill] by simp
qed

lemma colScan_step:
  assumes rec: "\<And>lower k opens'. ok opens' k (\<forall>i\<in>set lower. valid_item i) (mset lower) (rec lower k)"
  shows "pre opens rowId st \<Longrightarrow>
     \<exists>st' E'. colScan rec rowId currentCol right currentItems st = Some st'
        \<and> step opens rowId E' st st'
        \<and> ((\<forall>i\<in>set currentItems. valid_item i \<and> col i + size_x i \<le> right)
             \<and> (currentItems \<noteq> [] \<longrightarrow> currentCol \<le> right) \<longrightarrow> E' = mset currentItems)"
  using rec
proof (induction rec rowId currentCol right currentItems st rule: colScan.induct)
  case (1 rec rowId currentCol right currentItems st)
  note pre = "1.prems"(1)
  note rec = "1.prems"(2)
  from pre have par: "rowId \<in> opens" by (simp add: pre_def)
  show ?case
  proof (cases "currentItems \<noteq> [] \<and> currentCol \<le> right")
    case False
    then have "colScan rec rowId currentCol right currentItems st = Some st"
      by (subst colScan.simps) auto
    moreover have "step opens rowId {#} st st" using pre by (rule step_refl)
    ultimately show ?thesis using False by auto
  next
    case True
    obtain b l u where e: "every_side col size_x currentCol currentItems [] [] = (b, l, u)"
      by (cases "every_side col size_x currentCol currentItems [] []") auto
    show ?thesis
    proof (cases b)
      case True
      with e have e': "every_side col size_x currentCol currentItems [] [] = (True, l, u)" by simp
      note m = every_side_mset [OF e']
      have "ok opens rowId (\<forall>i\<in>set l. valid_item i) (mset l) (new_column rec rowId l)"
        by (rule new_column_ok) (rule rec)
      from this pre obtain s1 E1 where 1: "new_column rec rowId l st = Some s1"
          "step opens rowId E1 st s1" "(\<forall>i\<in>set l. valid_item i) \<longrightarrow> E1 = mset l"
        by (rule okD)
      from 1(2) par have pre1: "pre opens rowId s1" by (rule step_pre)
      from "1.IH"(1) [OF \<open>currentItems \<noteq> [] \<and> currentCol \<le> right\<close> e' [symmetric] refl refl 1(1) pre1 rec]
      obtain s2 E2 where 2: "colScan rec rowId (currentCol + 1) right u s1 = Some s2"
          "step opens rowId E2 s1 s2"
          "(\<forall>i\<in>set u. valid_item i \<and> col i + size_x i \<le> right) \<and> (u \<noteq> [] \<longrightarrow> currentCol + 1 \<le> right)
             \<longrightarrow> E2 = mset u"
        by blast
      have run: "colScan rec rowId currentCol right currentItems st = Some s2"
        using \<open>currentItems \<noteq> [] \<and> currentCol \<le> right\<close> e' 1(1) 2(1) by (subst colScan.simps) simp
      from 1(2) 2(2) par have st: "step opens rowId (E1 + E2) st s2" by (rule step_trans)
      have "E1 + E2 = mset currentItems"
        if v: "\<forall>i\<in>set currentItems. valid_item i \<and> col i + size_x i \<le> right"
      proof -
        from v m(2) 1(3) have "E1 = mset l" by auto
        moreover have "u \<noteq> [] \<longrightarrow> currentCol + 1 \<le> right"
        proof (intro impI, rule ccontr)
          assume "u \<noteq> []" "\<not> currentCol + 1 \<le> right"
          with \<open>currentItems \<noteq> [] \<and> currentCol \<le> right\<close> have "currentCol = right" by simp
          with v have "\<forall>i\<in>set currentItems. col i + size_x i \<le> currentCol" by simp
          then have "u = []" by (rule m(4))
          with \<open>u \<noteq> []\<close> show False by simp
        qed
        with v m(3) 2(3) have "E2 = mset u" by auto
        ultimately show ?thesis using m(1) by simp
      qed
      with run st show ?thesis by blast
    next
      case False
      with e have e': "every_side col size_x currentCol currentItems [] [] = (False, l, u)" by simp
      from "1.IH"(2) [OF \<open>currentItems \<noteq> [] \<and> currentCol \<le> right\<close> e' [symmetric] refl refl pre rec]
      obtain s2 E2 where 2: "colScan rec rowId (currentCol + 1) right currentItems st = Some s2"
          "step opens rowId E2 st s2"
          "(\<forall>i\<in>set currentItems. valid_item i \<and> col i + size_x i \<le> right)
             \<and> (currentItems \<noteq> [] \<longrightarrow> currentCol + 1 \<le> right) \<longrightarrow> E2 = mset currentItems"
        by blast
      have run: "colScan rec rowId currentCol right currentItems st = Some s2"
        using \<open>currentItems \<noteq> [] \<and> currentCol \<le> right\<close> e' 2(1) by (subst colScan.simps) simp
      have "E2 = mset currentItems"
        if v: "\<forall>i\<in>set currentItems. valid_item i \<and> col i + size_x i \<le> right"
      proof -
        have "currentCol + 1 \<le> right"
        proof (rule ccontr)
          assume "\<not> currentCol + 1 \<le> right"
          with \<open>currentItems \<noteq> [] \<and> currentCol \<le> right\<close> have "currentCol = right" by simp
          with v have "\<forall>i\<in>set currentItems. col i + size_x i \<le> currentCol" by simp
          with every_side_False [OF e'] show False by auto
        qed
        with v 2(3) show ?thesis by simp
      qed
      with run 2(2) show ?thesis by blast
    qed
  qed
qed
lemma ok_weaken:
  assumes "ok opens k V' E f" and "V \<Longrightarrow> V'"
  shows "ok opens k V E f"
  using assms unfolding ok_def by blast

lemma sum_list_mset_concat: "(\<Sum>x\<leftarrow>xss. mset x) = mset (concat xss)"
  by (induction xss) simp_all

lemma doConvert_step:
  "pre opens parent st \<Longrightarrow>
     \<exists>st' E'. doConvert layout level parent st = Some st'
        \<and> step opens parent E' st st'
        \<and> ((\<forall>i\<in>set layout. valid_item i) \<longrightarrow> E' = mset layout)"
proof (induction layout level parent st arbitrary: opens rule: doConvert.induct)
  case (1 layout level parent st)
  note pre = "1.prems"
  consider "length layout = 0" | "length layout = 1" | "length layout \<noteq> 0" "length layout \<noteq> 1"
    by blast
  then show ?case
  proof cases
    case 1
    then have "doConvert layout level parent st = Some st" by (subst doConvert.simps) simp
    moreover have "step opens parent {#} st st" using pre by (rule step_refl)
    ultimately show ?thesis using 1 by auto
  next
    case 2
    then obtain x where x: "layout = [x]" by (cases layout) auto
    then have "doConvert layout level parent st = Some (add_chart parent st x)"
      by (subst doConvert.simps) simp
    moreover have "step opens parent {#x#} st (add_chart parent st x)"
      using pre by (rule add_chart_step)
    ultimately show ?thesis using x by auto
  next
    case 3
    define b where "b = getBoundary layout"
    define layers where "layers = rowScan (b_top b + 1) (b_bottom b) layout []"
    let ?V = "\<forall>i\<in>set layout. valid_item i"
    let ?rec = "\<lambda>lower p s'. doConvert lower (level + 2) p s'"
    let ?F = "\<lambda>layer k s2. if level \<ge> 2 \<or> \<not> hasOverlap layer True
                 then Some (foldl (add_chart k) s2 (sort_cmp sortByColId layer))
                 else colScan ?rec k (b_left b + 1) (b_right b) layer s2"
    let ?body = "\<lambda>layer s. let (rowContainer, s1) = getRowContainer s;
                     s2 = push_child parent (node_id rowContainer) (register rowContainer s1)
                 in case ?F layer (node_id rowContainer) s2 of
                      None \<Rightarrow> None
                    | Some s3 \<Rightarrow> add_row_meta (node_id rowContainer) s3"
    have run: "doConvert layout level parent st = forEach layers ?body st"
      using 3 unfolding b_def layers_def by (subst doConvert.simps) (simp add: Let_def)
    have sub: "set layer \<subseteq> set layout" if "layer \<in> set layers" for layer
      using that rowScan_subset [of "b_top b + 1" "b_bottom b" layout "[]"]
      by (auto simp: layers_def)
    have fill: "ok (insert k opens) k ?V (mset layer) (?F layer k)" if layer: "layer \<in> set layers" for layer k
    proof (rule ok_if)
      show "ok (insert k opens) k ?V (mset layer)
              (\<lambda>s. Some (foldl (add_chart k) s (sort_cmp sortByColId layer)))"
        by (rule charts_ok) simp
    next
      assume ovl: "\<not> (2 \<le> level \<or> \<not> hasOverlap layer True)"
      have rec: "ok opens' p (\<forall>i\<in>set lower. valid_item i) (mset lower) (?rec lower p)" for lower p opens'
        by (rule okI) (rule "1.IH" [OF 3(1) 3(2) refl refl refl prod.collapse refl ovl])
      have "ok (insert k opens) k
              ((\<forall>i\<in>set layer. valid_item i \<and> col i + size_x i \<le> b_right b)
                \<and> (layer \<noteq> [] \<longrightarrow> b_left b + 1 \<le> b_right b))
              (mset layer) (colScan ?rec k (b_left b + 1) (b_right b) layer)"
        by (rule okI) (rule colScan_step [OF rec])
      then show "ok (insert k opens) k ?V (mset layer) (colScan ?rec k (b_left b + 1) (b_right b) layer)"
      proof (rule ok_weaken)
        assume v: ?V
        have "valid_item i \<and> col i + size_x i \<le> b_right b \<and> b_left b + 1 \<le> b_right b"
          if "i \<in> set layer" for i
        proof -
          from that sub [OF layer] have i: "i \<in> set layout" by auto
          with v have "0 < size_x i" "valid_item i" by (auto simp: valid_item_def)
          with boundary_bounds(2,4) [OF i] show ?thesis by (simp add: b_def)
        qed
        then show "(\<forall>i\<in>set layer. valid_item i \<and> col i + size_x i \<le> b_right b)
                \<and> (layer \<noteq> [] \<longrightarrow> b_left b + 1 \<le> b_right b)"
          by (cases layer) auto
      qed
    qed
    have "ok opens parent ?V (\<Sum>layer\<leftarrow>layers. mset layer) (forEach layers ?body)"
      by (rule forEach_ok) (rule row_body_ok, rule fill)
    from this pre obtain st' E' where r: "forEach layers ?body st = Some st'"
        "step opens parent E' st st'" "?V \<longrightarrow> E' = (\<Sum>layer\<leftarrow>layers. mset layer)"
      by (rule okD)
    have "mset (concat layers) = mset layout" if v: ?V
    proof -
      from 3 obtain x where x: "x \<in> set layout" by (cases layout) auto
      with v have "0 < size_y x" by (auto simp: valid_item_def)
      with boundary_bounds(1,3) [OF x] have "b_top b + 1 \<le> b_bottom b" by (simp add: b_def)
      moreover have "\<forall>i\<in>set layout. row i + size_y i \<le> b_bottom b"
        using boundary_bounds(3) by (simp add: b_def)
      ultimately show ?thesis
        unfolding layers_def by (subst rowScan_mset) simp_all
    qed
    with r run show ?thesis by (auto simp: sum_list_mset_concat)
  qed
qed

section \<open>The registry of a conversion\<close>

lemma initial_pre:
  "pre {''DASHBOARD_ROOT_ID''} ''DASHBOARD_ROOT_ID''
     \<lparr>componentId = c, root = [(''DASHBOARD_ROOT_ID'', root_node)]\<rparr>"
  by (simp add: pre_def conv_inv_def keys_def all_children_def root_node_def has_width_def
      width_law_def root_not_gen_id)

text \<open>What every conversion establishes, whatever the layout and the counter.\<close>

lemma convertLayout_inv:
  "\<exists>st E.
     convertLayout layout c = Some (root st)
     \<and> conv_inv {''DASHBOARD_ROOT_ID''} st
     \<and> (\<exists>new. map_of (root st) ''DASHBOARD_ROOT_ID'' = Some (root_node\<lparr>children := new\<rparr>))
     \<and> mset (leaf_metas (root st)) = image_mset (\<lambda>i. Some (chart_meta i)) E
     \<and> ((\<forall>i\<in>set layout. valid_item i) \<longrightarrow> E = mset layout)"
proof -
  let ?s0 = "\<lparr>componentId = c, root = [(''DASHBOARD_ROOT_ID'', root_node)]\<rparr>"
  from doConvert_step [where layout = layout and level = 0, OF initial_pre [of c]]
  obtain st E where r: "doConvert layout 0 ''DASHBOARD_ROOT_ID'' ?s0 = Some st"
      "step {''DASHBOARD_ROOT_ID''} ''DASHBOARD_ROOT_ID'' E ?s0 st"
      "(\<forall>i\<in>set layout. valid_item i) \<longrightarrow> E = mset layout"
    by blast
  from r(1) have 1: "convertLayout layout c = Some (root st)" by (simp add: convertLayout_def)
  from r(2) have 2: "conv_inv {''DASHBOARD_ROOT_ID''} st" by (simp add: step_def)
  from r(2) have 3: "\<exists>new. map_of (root st) ''DASHBOARD_ROOT_ID'' = Some (root_node\<lparr>children := new\<rparr>)"
    by (auto simp: step_def root_node_def)
  from r(2) have 4: "mset (leaf_metas (root st)) = image_mset (\<lambda>i. Some (chart_meta i)) E"
    by (simp add: step_def leaf_metas_def root_node_def)
  from 1 2 3 4 r(3) show ?thesis by blast
qed

lemma convert_returns: "\<exists>reg. convert = Some reg"
  using convertLayout_inv [of dash6 1] unfolding convert_def by (elim exE conjE) (rule exI)








section \<open>Sums and maxima of widths\<close>











section \<open>Three conversions, step by step\<close>













lemma string_of_nat_three [simp]: "string_of_nat 3 = ''3''"
  by code_simp










section \<open>Two conversions of one layout\<close>























end
